theory Spec2Isabelle
  imports Main "HOL-Library.AList"
begin

section \<open>The chat server of \<^verbatim>\<open>server.py\<close>\<close>

text \<open>
  A shallow embedding of the relay server: its three global tables, the username
  sanitizer, the rate limiter, the broadcast with its cleanup of dead connections, and
  the per-connection handler \<^verbatim>\<open>handle_client\<close>, cut at its suspension points into
  the step taken on the first payload, the step taken on every later payload and the
  step taken when the transport closes.

  What the program takes from outside is collected in an environment: whether a send
  on a connection succeeds, the Fernet cipher, and the two Unicode predicates
  \<^verbatim>\<open>str.isalnum\<close> and \<^verbatim>\<open>str.isspace\<close> of the Python runtime.
\<close>

subsection \<open>Strings, JSON values and events\<close>

text \<open>
  A Python \<^verbatim>\<open>str\<close> is a sequence of code points and \<^verbatim>\<open>len\<close> counts code points,
  so a string is a list of code points here. \<open>ascii\<close> reads an ASCII literal.
\<close>

type_synonym conn = nat
type_synonym ustr = "nat list"

definition ascii :: "string \<Rightarrow> ustr" where
  "ascii s = map of_char s"

text \<open>The literal name of the source, \<open>Anonimo\<close> with an acute accent on its first \<open>o\<close>: seven code points, the third is U+00F3.\<close>

definition anonimo :: ustr where
  "anonimo = ascii ''An'' @ [243] @ ascii ''nimo''"

text \<open>
  What \<^verbatim>\<open>json.loads\<close> returns. A number is held as an integer: the handler only
  asks whether a number is zero and whether a value is a string. An object holds the
  items of the parsed dict, whose keys are distinct.
\<close>

datatype json =
    JNull
  | JBool bool
  | JNum int
  | JStr ustr
  | JArr "json list"
  | JObj "(ustr \<times> json) list"

text \<open>
  A received frame, by what \<^verbatim>\<open>json.loads\<close> does with it: it raises JSONDecodeError
  (\<open>Malformed\<close>), it raises another exception (\<open>Unreadable\<close>: UnicodeDecodeError on a
  binary frame that is no UTF-8, RecursionError on deep nesting, ValueError on an
  integer literal of more than 4300 digits), or it returns a value.
\<close>

datatype frame = Malformed | Unreadable | Parsed json

text \<open>Python truthiness, as \<^verbatim>\<open>not name\<close> reads it.\<close>

fun truthy :: "json \<Rightarrow> bool" where
  "truthy JNull = False"
| "truthy (JBool b) = b"
| "truthy (JNum n) = (n \<noteq> 0)"
| "truthy (JStr s) = (s \<noteq> [])"
| "truthy (JArr xs) = (xs \<noteq> [])"
| "truthy (JObj kvs) = (kvs \<noteq> [])"

text \<open>
  The seven error texts of the handler, in the order of the source (accents dropped):
  \<^verbatim>\<open>JSON invalido en registro\<close>, \<^verbatim>\<open>Debe registrarse primero\<close>,
  \<^verbatim>\<open>Rate limit excedido. Intenta mas tarde.\<close>, \<^verbatim>\<open>JSON invalido\<close>,
  \<^verbatim>\<open>Contenido invalido o demasiado grande\<close>, \<^verbatim>\<open>Mensaje invalido\<close>,
  \<^verbatim>\<open>Tipo de mensaje no soportado\<close>.
\<close>

datatype errtext =
    RegistrationJsonInvalid
  | MustRegisterFirst
  | RateLimitExceeded
  | JsonInvalid
  | ContentInvalid
  | MessageInvalid
  | TypeUnsupported

text \<open>
  The outbound events. The key event carries the one process-wide key, so it has no
  argument; the \<^verbatim>\<open>message\<close> field of a join or leave notice is a function of the
  name and is left out. Timestamps are readings of the clock in microseconds.
\<close>

datatype event =
    EncryptionKey
  | UserList "ustr list"
  | UserJoined ustr int
  | UserLeft ustr int
  | ChatMessage ustr ustr int
  | Error errtext

text \<open>One attempted send, with its fate.\<close>

datatype io = Sent conn event | Failed conn event

fun io_conn :: "io \<Rightarrow> conn" where
  "io_conn (Sent c ev) = c"
| "io_conn (Failed c ev) = c"

fun io_event :: "io \<Rightarrow> event" where
  "io_event (Sent c ev) = ev"
| "io_event (Failed c ev) = ev"

datatype exn = ConnectionClosed | AttributeError | ValueError

subsection \<open>Constants and global state\<close>

definition MAX_PLAINTEXT_LEN :: nat where
  "MAX_PLAINTEXT_LEN = 4096"

definition MAX_ENCRYPTED_LEN :: nat where
  "MAX_ENCRYPTED_LEN = 8 * MAX_PLAINTEXT_LEN"

text \<open>
  Time is an integer count of microseconds, the resolution of \<^verbatim>\<open>datetime\<close>.
  \<^verbatim>\<open>total_seconds()\<close> is that count divided by \<open>10\<^sup>6\<close>, correctly rounded, and
  \<open>2.0\<close> is a float, so \<^verbatim>\<open>total_seconds() > RATE_WINDOW\<close> holds exactly when the
  count exceeds \<open>2000000\<close>.
\<close>

definition RATE_WINDOW :: int where
  "RATE_WINDOW = 2000000"

definition RATE_MAX_MSGS :: nat where
  "RATE_MAX_MSGS = 10"

record bucket =
  count :: nat
  window_start :: int

text \<open>
  \<open>clients\<close> is a Python set: a list without repetition here, in the order the loop of
  \<open>broadcast_message\<close> visits it. \<open>client_names\<close> is a dict, which keeps insertion
  order; \<open>rate_bucket\<close> is a dict whose order is never read. \<open>trace\<close> is every send
  attempted so far, \<open>clock\<close> what \<^verbatim>\<open>datetime.now()\<close> reads during the current step.
\<close>

record server =
  clients :: "conn list"
  client_names :: "(conn \<times> ustr) list"
  rate_bucket :: "conn \<rightharpoonup> bucket"
  trace :: "io list"
  clock :: int

record env =
  up :: "conn \<Rightarrow> bool"
  encrypt :: "nat \<Rightarrow> ustr \<Rightarrow> ustr"
  decrypt :: "ustr \<Rightarrow> ustr option"
  isalnum :: "nat \<Rightarrow> bool"
  isspace :: "nat \<Rightarrow> bool"

subsection \<open>sanitize_username\<close>

definition strip :: "env \<Rightarrow> ustr \<Rightarrow> ustr" where
  "strip E s = rev (dropWhile (isspace E) (rev (dropWhile (isspace E) s)))"

text \<open>The test \<^verbatim>\<open>ch.isalnum() or ch in " _-.'"\<close>: space, underscore, hyphen, period, apostrophe.\<close>

definition allowed :: "env \<Rightarrow> nat \<Rightarrow> bool" where
  "allowed E ch = (isalnum E ch \<or> ch \<in> set [32, 95, 45, 46, 39])"

text \<open>
  The argument is \<^verbatim>\<open>data.get("username")\<close>: \<open>None\<close> when the key is missing.
  \<^verbatim>\<open>name.strip()\<close> raises AttributeError on a truthy value that is no string.
\<close>

definition sanitize_username :: "env \<Rightarrow> json option \<Rightarrow> exn + ustr" where
  "sanitize_username E name =
     (case name of
        None \<Rightarrow> Inr anonimo
      | Some v \<Rightarrow>
          if \<not> truthy v then Inr anonimo
          else (case v of
                  JStr s \<Rightarrow>
                    (let name = strip E s;
                         filtrado = filter (allowed E) name
                     in Inr (take 32 (if filtrado = [] then anonimo else filtrado)))
                | _ \<Rightarrow> Inl AttributeError))"

subsection \<open>rate_limit_ok\<close>

definition rate_limit_ok :: "server \<Rightarrow> conn \<Rightarrow> bool \<times> server" where
  "rate_limit_ok st ws =
     (let now = clock st in
      case rate_bucket st ws of
        None \<Rightarrow>
          (True, st\<lparr>rate_bucket := (rate_bucket st)(ws \<mapsto> \<lparr>count = 1, window_start = now\<rparr>)\<rparr>)
      | Some bucket \<Rightarrow>
          if now - window_start bucket > RATE_WINDOW
          then (True, st\<lparr>rate_bucket :=
                  (rate_bucket st)(ws \<mapsto> bucket\<lparr>count := 1, window_start := now\<rparr>)\<rparr>)
          else if count bucket \<ge> RATE_MAX_MSGS then (False, st)
          else (True, st\<lparr>rate_bucket :=
                  (rate_bucket st)(ws \<mapsto> bucket\<lparr>count := count bucket + 1\<rparr>)\<rparr>))"

subsection \<open>broadcast_message and unregister_client\<close>

definition attempt :: "env \<Rightarrow> event \<Rightarrow> conn \<Rightarrow> io" where
  "attempt E ev c = (if up E c then Sent c ev else Failed c ev)"

text \<open>
  The first loop of \<open>broadcast_message\<close>: the connections it sends to, and those whose
  send raised, in the order of the iteration.
\<close>

definition targets :: "server \<Rightarrow> conn option \<Rightarrow> bool \<Rightarrow> conn list" where
  "targets st exclude echo_to_sender =
     filter (\<lambda>client. \<not> (\<not> echo_to_sender \<and> Some client = exclude)) (clients st)"

definition disconnected :: "env \<Rightarrow> server \<Rightarrow> conn option \<Rightarrow> bool \<Rightarrow> conn list" where
  "disconnected E st exclude echo_to_sender =
     filter (\<lambda>client. \<not> up E client) (targets st exclude echo_to_sender)"

definition send_all :: "env \<Rightarrow> server \<Rightarrow> event \<Rightarrow> conn option \<Rightarrow> bool \<Rightarrow> server" where
  "send_all E st message exclude echo_to_sender =
     st\<lparr>trace := trace st @ map (attempt E message) (targets st exclude echo_to_sender)\<rparr>"

text \<open>The three removals of \<open>unregister_client\<close>, and the name it announces.\<close>

definition left_name :: "server \<Rightarrow> conn \<Rightarrow> ustr" where
  "left_name st websocket =
     (case map_of (client_names st) websocket of
        Some name \<Rightarrow> name
      | None \<Rightarrow> ascii ''Usuario desconocido'')"

definition forget :: "server \<Rightarrow> conn \<Rightarrow> server" where
  "forget st websocket =
     st\<lparr>clients := removeAll websocket (clients st),
        client_names := AList.delete websocket (client_names st),
        rate_bucket := (rate_bucket st)(websocket := None)\<rparr>"

text \<open>
  \<open>broadcast_message\<close> calls \<open>unregister_client\<close> on each connection it collected, and
  \<open>unregister_client\<close> calls \<open>broadcast_message\<close> for the leave notice. \<open>cleanup\<close> runs
  that mutual recursion with the pending calls of \<open>unregister_client\<close> kept as a list:
  the head is unregistered, and the connections its leave notice fails to reach are
  unregistered before the rest of the list, as the nested call does. Each round
  with a registered head shrinks the client set, which bounds the recursion.
  The equations of the two source functions are proved from it below
  (\<open>unregister_client_eq\<close>, \<open>broadcast_message_eq\<close>).
\<close>

function cleanup :: "env \<Rightarrow> conn list \<Rightarrow> server \<Rightarrow> server" where
  "cleanup E [] st = st"
| "cleanup E (websocket # pending) st =
     (if websocket \<in> set (clients st)
      then (let message = UserLeft (left_name st websocket) (clock st);
                st1 = forget st websocket
            in if clients st1 = [] then cleanup E pending st1
               else cleanup E (disconnected E st1 None True @ pending)
                      (send_all E st1 message None True))
      else cleanup E pending st)"
  by pat_completeness auto
termination
  by (relation "measures [\<lambda>(E, pending, st). length (clients st), \<lambda>(E, pending, st). length pending]")
     (auto simp: forget_def send_all_def length_removeAll_less)

definition unregister_client :: "env \<Rightarrow> server \<Rightarrow> conn \<Rightarrow> server" where
  "unregister_client E st websocket = cleanup E [websocket] st"

definition broadcast_message :: "env \<Rightarrow> server \<Rightarrow> event \<Rightarrow> conn option \<Rightarrow> bool \<Rightarrow> server" where
  "broadcast_message E st message exclude echo_to_sender =
     (if clients st = [] then st
      else cleanup E (disconnected E st exclude echo_to_sender)
             (send_all E st message exclude echo_to_sender))"

subsection \<open>The broadcast loop over the live client set\<close>

text \<open>
  \<open>broadcast_message\<close> above runs a broadcast in one piece: it is what the program does
  when no other handler touches \<open>clients\<close> while the loop runs
  (\<open>broadcast_message_live_undisturbed\<close> below). In the program the loop iterates the
  set \<open>clients\<close> itself and awaits each send inside the loop, so other handlers run
  during the loop and may add to the set or remove from it. A set iterator of Python
  checks at every step, the one that ends the iteration included, that the set has the
  size it had when the iteration began, and raises RuntimeError otherwise. The
  \<^verbatim>\<open>for\<close> statement raises it, outside the \<^verbatim>\<open>try\<close> around the send, so it leaves
  \<open>broadcast_message\<close> before the collected connections are cleaned up.

  \<open>meanwhile client\<close> is what the other handlers do to the state while the send to
  \<open>client\<close> is awaited. A connection removed meanwhile is not visited. Where the set
  changes and keeps its size, the order in which Python goes on is unspecified; the
  loop here goes on in the order it began with.
\<close>

datatype fan_out = Completed server | SetChanged server

fun fan_out_state :: "fan_out \<Rightarrow> server" where
  "fan_out_state (Completed st) = st"
| "fan_out_state (SetChanged st) = st"

fun broadcast_loop ::
  "env \<Rightarrow> (conn \<Rightarrow> server \<Rightarrow> server) \<Rightarrow> event \<Rightarrow> conn option \<Rightarrow> bool \<Rightarrow> nat \<Rightarrow>
     conn list \<Rightarrow> conn list \<Rightarrow> server \<Rightarrow> fan_out" where
  "broadcast_loop E meanwhile message exclude echo_to_sender size0 [] collected st =
     (if length (clients st) \<noteq> size0 then SetChanged st
      else Completed (foldl (unregister_client E) st collected))"
| "broadcast_loop E meanwhile message exclude echo_to_sender size0 (client # rest) collected st =
     (if length (clients st) \<noteq> size0 then SetChanged st
      else if client \<notin> set (clients st)
      then broadcast_loop E meanwhile message exclude echo_to_sender size0 rest collected st
      else if \<not> echo_to_sender \<and> Some client = exclude
      then broadcast_loop E meanwhile message exclude echo_to_sender size0 rest collected st
      else broadcast_loop E meanwhile message exclude echo_to_sender size0 rest
             (if up E client then collected else collected @ [client])
             (meanwhile client (st\<lparr>trace := trace st @ [attempt E message client]\<rparr>)))"

definition broadcast_message_live ::
  "env \<Rightarrow> (conn \<Rightarrow> server \<Rightarrow> server) \<Rightarrow> server \<Rightarrow> event \<Rightarrow> conn option \<Rightarrow> bool \<Rightarrow> fan_out" where
  "broadcast_message_live E meanwhile st message exclude echo_to_sender =
     (if clients st = [] then Completed st
      else broadcast_loop E meanwhile message exclude echo_to_sender
             (length (clients st)) (clients st) [] st)"

definition unregister_client_live ::
  "env \<Rightarrow> (conn \<Rightarrow> server \<Rightarrow> server) \<Rightarrow> server \<Rightarrow> conn \<Rightarrow> fan_out" where
  "unregister_client_live E meanwhile st websocket =
     (if websocket \<in> set (clients st)
      then broadcast_message_live E meanwhile (forget st websocket)
             (UserLeft (left_name st websocket) (clock st)) None True
      else Completed st)"

text \<open>
  Two things other handlers do during an awaited send. The handler of a connection whose
  transport has closed ends while a send to that very connection is awaited: its
  \<^verbatim>\<open>finally\<close> runs \<open>unregister_client\<close>.
\<close>

definition own_handler_ends :: "env \<Rightarrow> conn \<Rightarrow> conn \<Rightarrow> server \<Rightarrow> server" where
  "own_handler_ends E closed client st =
     (if client = closed then unregister_client E st closed else st)"

subsection \<open>register_client\<close>

text \<open>
  The result of a piece of \<open>handle_client\<close>: an exception left it, it executed
  \<^verbatim>\<open>return\<close>, or control goes on to the next statement. Each carries the state reached.
\<close>

datatype flow = Raised exn server | Returned server | Next server

fun flow_state :: "flow \<Rightarrow> server" where
  "flow_state (Raised e st) = st"
| "flow_state (Returned st) = st"
| "flow_state (Next st) = st"

text \<open>
  \<^verbatim>\<open>await websocket.send(...)\<close> of the handler's own connection, outside any
  \<^verbatim>\<open>try\<close> of its own: a failure leaves as ConnectionClosed.
\<close>

definition send :: "env \<Rightarrow> server \<Rightarrow> conn \<Rightarrow> event \<Rightarrow> flow" where
  "send E st websocket ev =
     (let st' = st\<lparr>trace := trace st @ [attempt E ev websocket]\<rparr>
      in if up E websocket then Next st' else Raised ConnectionClosed st')"

text \<open>\<^verbatim>\<open>clients.add(websocket)\<close>; where a new element lands in the iteration is unspecified in Python, the end is chosen here.\<close>

definition set_add :: "conn \<Rightarrow> conn list \<Rightarrow> conn list" where
  "set_add websocket cs = (if websocket \<in> set cs then cs else cs @ [websocket])"

text \<open>
  The \<open>user_joined\<close> broadcast passes \<^verbatim>\<open>echo_to_sender=False\<close> and no
  \<^verbatim>\<open>exclude\<close>, which therefore is \<open>None\<close>.
\<close>

definition register_client :: "env \<Rightarrow> server \<Rightarrow> conn \<Rightarrow> ustr \<Rightarrow> flow" where
  "register_client E st websocket name =
     (let st1 = st\<lparr>clients := set_add websocket (clients st),
                    client_names := AList.update websocket name (client_names st),
                    rate_bucket := (rate_bucket st)(websocket \<mapsto>
                                     \<lparr>count = 0, window_start = clock st\<rparr>)\<rparr>
      in case send E st1 websocket EncryptionKey of
           Next st2 \<Rightarrow> Next (broadcast_message E st2 (UserJoined name (clock st)) None False)
         | r \<Rightarrow> r)"

text \<open>A new connection registers while the send to \<open>during\<close> is awaited.\<close>

definition newcomer_registers ::
  "env \<Rightarrow> conn \<Rightarrow> conn \<Rightarrow> ustr \<Rightarrow> conn \<Rightarrow> server \<Rightarrow> server" where
  "newcomer_registers E during websocket name client st =
     (if client = during then flow_state (register_client E st websocket name) else st)"

subsection \<open>handle_client\<close>

text \<open>\<^verbatim>\<open>data.get\<close> exists on a dict only; \<^verbatim>\<open>isinstance(enc, str)\<close>.\<close>

fun dict_items :: "json \<Rightarrow> (ustr \<times> json) list option" where
  "dict_items (JObj d) = Some d"
| "dict_items v = None"

fun as_str :: "json option \<Rightarrow> ustr option" where
  "as_str (Some (JStr s)) = Some s"
| "as_str v = None"

text \<open>Lines 185 to 201: the first payload, up to the entry into the message loop.\<close>

definition registration :: "env \<Rightarrow> server \<Rightarrow> conn \<Rightarrow> frame \<Rightarrow> flow" where
  "registration E st websocket registration_message =
     (case registration_message of
        Malformed \<Rightarrow>
          (case send E st websocket (Error RegistrationJsonInvalid) of
             Next st' \<Rightarrow> Returned st'
           | r \<Rightarrow> r)
      | Unreadable \<Rightarrow> Raised ValueError st
      | Parsed data \<Rightarrow>
          (case dict_items data of
             None \<Rightarrow> Raised AttributeError st
           | Some d \<Rightarrow>
               if map_of d (ascii ''type'') \<noteq> Some (JStr (ascii ''register''))
               then (case send E st websocket (Error MustRegisterFirst) of
                       Next st' \<Rightarrow> Returned st'
                     | r \<Rightarrow> r)
               else (case sanitize_username E (map_of d (ascii ''username'')) of
                       Inl e \<Rightarrow> Raised e st
                     | Inr username \<Rightarrow>
                         (case register_client E st websocket username of
                            Next st' \<Rightarrow>
                              send E st' websocket (UserList (map snd (client_names st')))
                          | r \<Rightarrow> r))))"

text \<open>\<^verbatim>\<open>client_names.get(websocket, "?")\<close>.\<close>

definition sender_name :: "server \<Rightarrow> conn \<Rightarrow> ustr" where
  "sender_name st websocket =
     (case map_of (client_names st) websocket of Some name \<Rightarrow> name | None \<Rightarrow> ascii ''?'')"

text \<open>
  Lines 205 to 241: one round of the message loop. \<open>iv\<close> is the randomness Fernet
  draws for the fresh ciphertext.
\<close>

definition message_round :: "env \<Rightarrow> nat \<Rightarrow> server \<Rightarrow> conn \<Rightarrow> frame \<Rightarrow> flow" where
  "message_round E iv st0 websocket message =
     (case rate_limit_ok st0 websocket of
        (ok, st) \<Rightarrow>
          if \<not> ok then send E st websocket (Error RateLimitExceeded)
          else (case message of
                  Malformed \<Rightarrow> send E st websocket (Error JsonInvalid)
                | Unreadable \<Rightarrow> Raised ValueError st
                | Parsed data \<Rightarrow>
                    (case dict_items data of
                       None \<Rightarrow> Raised AttributeError st
                     | Some d \<Rightarrow>
                         if map_of d (ascii ''type'') = Some (JStr (ascii ''chat_message''))
                         then (case as_str (map_of d (ascii ''content'')) of
                                 None \<Rightarrow> send E st websocket (Error ContentInvalid)
                               | Some enc \<Rightarrow>
                                   if length enc = 0 \<or> length enc > MAX_ENCRYPTED_LEN
                                   then send E st websocket (Error ContentInvalid)
                                   else (case decrypt E enc of
                                           None \<Rightarrow> send E st websocket (Error MessageInvalid)
                                         | Some dec \<Rightarrow>
                                             if length dec = 0 \<or> length dec > MAX_PLAINTEXT_LEN
                                             then send E st websocket (Error MessageInvalid)
                                             else Next (broadcast_message E st
                                                    (ChatMessage (sender_name st websocket)
                                                       (encrypt E iv dec) (clock st))
                                                    (Some websocket) True)))
                         else send E st websocket (Error TypeUnsupported))))"

text \<open>
  The \<^verbatim>\<open>try ... except ... finally\<close> around the handler: whatever ends it, other
  than going on with the loop, runs \<open>unregister_client\<close>.
\<close>

datatype step = Continue server | Closed server

definition finish :: "env \<Rightarrow> conn \<Rightarrow> flow \<Rightarrow> step" where
  "finish E websocket r =
     (case r of
        Next st \<Rightarrow> Continue st
      | Returned st \<Rightarrow> Closed (unregister_client E st websocket)
      | Raised e st \<Rightarrow> Closed (unregister_client E st websocket))"

definition handle_client_first :: "env \<Rightarrow> server \<Rightarrow> conn \<Rightarrow> frame \<Rightarrow> step" where
  "handle_client_first E st websocket registration_message =
     finish E websocket (registration E st websocket registration_message)"

definition handle_client_message :: "env \<Rightarrow> nat \<Rightarrow> server \<Rightarrow> conn \<Rightarrow> frame \<Rightarrow> step" where
  "handle_client_message E iv st websocket message =
     finish E websocket (message_round E iv st websocket message)"

text \<open>\<^verbatim>\<open>recv\<close> or the loop ends with the transport closed: only the \<^verbatim>\<open>finally\<close> runs.\<close>

definition handle_client_closed :: "env \<Rightarrow> server \<Rightarrow> conn \<Rightarrow> step" where
  "handle_client_closed E st websocket = Closed (unregister_client E st websocket)"

fun step_state :: "step \<Rightarrow> server" where
  "step_state (Continue st) = st"
| "step_state (Closed st) = st"

subsection \<open>The server as a whole\<close>

text \<open>
  The event loop runs one handler per connection and switches between them at their
  \<^verbatim>\<open>await\<close>s. A step here is what one handler does from one received payload (or
  from the close of its transport) to its next wait for a payload, with the clock, the
  cipher's randomness and the transport's state of that moment.
\<close>

datatype phase = Connected | InLoop | Gone

record system =
  srv :: server
  pc :: "conn \<Rightarrow> phase"

datatype action = Recv frame | Hangup

record occurrence =
  at_time :: int
  nonce :: nat
  who :: conn
  what :: action

definition after :: "system \<Rightarrow> conn \<Rightarrow> step \<Rightarrow> system" where
  "after sys websocket r =
     (case r of
        Continue st \<Rightarrow> \<lparr>srv = st, pc = (pc sys)(websocket := InLoop)\<rparr>
      | Closed st \<Rightarrow> \<lparr>srv = st, pc = (pc sys)(websocket := Gone)\<rparr>)"

definition system_step :: "env \<Rightarrow> system \<Rightarrow> occurrence \<Rightarrow> system" where
  "system_step E sys occ =
     (let websocket = who occ;
          st = (srv sys)\<lparr>clock := at_time occ\<rparr>
      in case pc sys websocket of
           Gone \<Rightarrow> sys
         | Connected \<Rightarrow>
             (case what occ of
                Recv payload \<Rightarrow> after sys websocket (handle_client_first E st websocket payload)
              | Hangup \<Rightarrow> after sys websocket (handle_client_closed E st websocket))
         | InLoop \<Rightarrow>
             (case what occ of
                Recv payload \<Rightarrow>
                  after sys websocket (handle_client_message E (nonce occ) st websocket payload)
              | Hangup \<Rightarrow> after sys websocket (handle_client_closed E st websocket)))"

fun run :: "system \<Rightarrow> (env \<times> occurrence) list \<Rightarrow> system" where
  "run sys [] = sys"
| "run sys ((E, occ) # rest) = run (system_step E sys occ) rest"

definition initial :: system where
  "initial = \<lparr>srv = \<lparr>clients = [], client_names = [], rate_bucket = Map.empty,
                      trace = [], clock = 0\<rparr>,
              pc = (\<lambda>websocket. Connected)\<rparr>"

subsection \<open>A concrete environment\<close>

text \<open>
  For evaluating the model on concrete inputs: the two predicates of CPython on the
  code points below 256 (no code point above is used in an evaluation), and a cipher
  that keeps the plaintext behind a marker and its nonce.
\<close>

definition latin1_isspace :: "nat \<Rightarrow> bool" where
  "latin1_isspace ch = (ch \<in> set [9, 10, 11, 12, 13, 28, 29, 30, 31, 32, 133, 160])"

definition latin1_isalnum :: "nat \<Rightarrow> bool" where
  "latin1_isalnum ch =
     ((48 \<le> ch \<and> ch \<le> 57) \<or> (65 \<le> ch \<and> ch \<le> 90) \<or> (97 \<le> ch \<and> ch \<le> 122)
      \<or> ch \<in> set [170, 178, 179, 181, 185, 186, 188, 189, 190]
      \<or> (192 \<le> ch \<and> ch \<le> 214) \<or> (216 \<le> ch \<and> ch \<le> 246) \<or> (248 \<le> ch \<and> ch \<le> 255))"

definition toy_encrypt :: "nat \<Rightarrow> ustr \<Rightarrow> ustr" where
  "toy_encrypt iv plaintext = 103 # iv # plaintext"

fun toy_decrypt :: "ustr \<Rightarrow> ustr option" where
  "toy_decrypt (marker # iv # plaintext) = (if marker = 103 then Some plaintext else None)"
| "toy_decrypt token = None"

definition toy_env :: "(conn \<Rightarrow> bool) \<Rightarrow> env" where
  "toy_env reachable =
     \<lparr>up = reachable, encrypt = toy_encrypt, decrypt = toy_decrypt,
      isalnum = latin1_isalnum, isspace = latin1_isspace\<rparr>"

subsection \<open>Successive arrivals at the rate limiter\<close>

text \<open>
  The decisions of \<open>rate_limit_ok\<close> for one connection on messages that arrive at
  the given clock readings, one call per message as in the loop of the handler.
\<close>

fun arrivals :: "server \<Rightarrow> conn \<Rightarrow> int list \<Rightarrow> bool list \<times> server" where
  "arrivals st ws [] = ([], st)"
| "arrivals st ws (now # later) =
     (case rate_limit_ok (st\<lparr>clock := now\<rparr>) ws of
        (ok, st') \<Rightarrow>
          (case arrivals st' ws later of
             (oks, st'') \<Rightarrow> (ok # oks, st'')))"

text \<open>A room with one registered connection, whose bucket is given.\<close>

definition room :: "bucket \<Rightarrow> int \<Rightarrow> server" where
  "room b now =
     \<lparr>clients = [1], client_names = [(1, ascii ''Ana'')], rate_bucket = [1 \<mapsto> b],
      trace = [], clock = now\<rparr>"

text \<open>
  The two payloads a client sends: its registration (\<^verbatim>\<open>client.py\<close>, line 86) and a
  chat message with some content.
\<close>

definition register_frame :: "json \<Rightarrow> frame" where
  "register_frame username =
     Parsed (JObj [(ascii ''type'', JStr (ascii ''register'')), (ascii ''username'', username)])"

definition chat_frame :: "json \<Rightarrow> frame" where
  "chat_frame content =
     Parsed (JObj [(ascii ''type'', JStr (ascii ''chat_message'')), (ascii ''content'', content)])"

text \<open>A room with three registered connections.\<close>

definition lobby :: server where
  "lobby =
     \<lparr>clients = [1, 2, 3],
      client_names = [(1, ascii ''Ana''), (2, ascii ''Bob''), (3, ascii ''Eva'')],
      rate_bucket = [1 \<mapsto> \<lparr>count = 0, window_start = 0\<rparr>,
                     2 \<mapsto> \<lparr>count = 0, window_start = 0\<rparr>,
                     3 \<mapsto> \<lparr>count = 0, window_start = 0\<rparr>],
      trace = [], clock = 9\<rparr>"

text \<open>
  A run of the server: Ana and Bob register; a chat message of Ana is relayed while
  the sends on her connection fail; one more message of hers, received before her
  transport closed, is handled; then her transport closes.
\<close>

definition stale_sender_run :: "(env \<times> occurrence) list" where
  "stale_sender_run =
     [(toy_env (\<lambda>c. True),
         \<lparr>at_time = 0, nonce = 0, who = 1, what = Recv (register_frame (JStr (ascii ''Ana'')))\<rparr>),
      (toy_env (\<lambda>c. True),
         \<lparr>at_time = 1, nonce = 0, who = 2, what = Recv (register_frame (JStr (ascii ''Bob'')))\<rparr>),
      (toy_env (\<lambda>c. c \<noteq> 1),
         \<lparr>at_time = 2, nonce = 7, who = 1,
          what = Recv (chat_frame (JStr (toy_encrypt 1 (ascii ''hola''))))\<rparr>),
      (toy_env (\<lambda>c. c \<noteq> 1),
         \<lparr>at_time = 3, nonce = 8, who = 1,
          what = Recv (chat_frame (JStr (toy_encrypt 2 (ascii ''adios''))))\<rparr>),
      (toy_env (\<lambda>c. c \<noteq> 1),
         \<lparr>at_time = 4, nonce = 0, who = 1, what = Hangup\<rparr>)]"

text \<open>
  The three tables agree: the names are kept for exactly the connections of the client
  set, which has no repetition, and every connection of the client set has a bucket.
\<close>

definition registry_ok :: "server \<Rightarrow> bool" where
  "registry_ok st =
     (set (clients st) = set (map fst (client_names st))
      \<and> distinct (clients st)
      \<and> set (clients st) \<subseteq> dom (rate_bucket st))"

subsection \<open>The names in the tables and on the wire\<close>

text \<open>
  A name as the sanitizer leaves it: at most 32 code points, each a letter or digit for
  \<^verbatim>\<open>isalnum\<close> or one of space, underscore, hyphen, period and apostrophe.
\<close>

definition good_name :: "env \<Rightarrow> ustr \<Rightarrow> bool" where
  "good_name E name = (length name \<le> 32 \<and> list_all (allowed E) name)"

text \<open>The names an event carries.\<close>

fun event_names :: "event \<Rightarrow> ustr list" where
  "event_names EncryptionKey = []"
| "event_names (UserList names) = names"
| "event_names (UserJoined name t) = [name]"
| "event_names (UserLeft name t) = [name]"
| "event_names (ChatMessage name content t) = [name]"
| "event_names (Error e) = []"

text \<open>A chat message under the default of \<^verbatim>\<open>client_names.get(websocket, "?")\<close>.\<close>

fun fallback_chat :: "event \<Rightarrow> bool" where
  "fallback_chat (ChatMessage name content t) = (name = ascii ''?'')"
| "fallback_chat ev = False"

definition event_ok :: "env \<Rightarrow> event \<Rightarrow> bool" where
  "event_ok E ev = (fallback_chat ev \<or> list_all (good_name E) (event_names ev))"

definition names_ok :: "env \<Rightarrow> server \<Rightarrow> bool" where
  "names_ok E st =
     (list_all (good_name E) (map snd (client_names st))
      \<and> list_all (\<lambda>io. event_ok E (io_event io)) (trace st))"

section \<open>Properties\<close>

subsection \<open>The username sanitizer\<close>

lemma anonimo_facts: "anonimo \<noteq> []" "length anonimo = 7" "take 32 anonimo = anonimo"
  by (simp_all add: anonimo_def ascii_def)

lemma sanitize_username_str:
  "sanitize_username E (Some (JStr s)) =
     Inr (take 32 (if filter (allowed E) (strip E s) = [] then anonimo
                   else filter (allowed E) (strip E s)))"
proof (cases "s = []")
  case True
  then show ?thesis by (simp add: sanitize_username_def strip_def anonimo_facts)
next
  case False
  then show ?thesis by (simp add: sanitize_username_def Let_def)
qed

lemma sanitize_username_kept:
  "sanitize_username E (Some (JStr s)) =
     Inr (let kept = take 32 (filter (allowed E) (strip E s))
          in if kept = [] then anonimo else kept)"
proof (cases "filter (allowed E) (strip E s) = []")
  case True
  then show ?thesis by (simp add: sanitize_username_str anonimo_facts(3))
next
  case False
  then have "take 32 (filter (allowed E) (strip E s)) \<noteq> []" by simp
  with False show ?thesis by (simp only: sanitize_username_str Let_def if_False)
qed

lemma kept_allowed: "ch \<in> set (take n (filter (allowed E) xs)) \<Longrightarrow> allowed E ch"
  by (drule in_set_takeD) simp

lemma sanitize_username_result:
  assumes letters: "\<forall>ch\<in>set anonimo. isalnum E ch"
    and r: "sanitize_username E (Some (JStr s)) = Inr r"
  shows "r \<noteq> []" "length r \<le> 32" "filter (allowed E) r = r"
proof -
  let ?kept = "take 32 (filter (allowed E) (strip E s))"
  from r have req: "r = (if ?kept = [] then anonimo else ?kept)"
    by (simp add: sanitize_username_kept Let_def)
  show "r \<noteq> []" by (cases "?kept = []") (simp_all add: req anonimo_facts(1))
  show "length r \<le> 32" by (cases "?kept = []") (simp_all add: req anonimo_facts(2))
  have "\<forall>ch\<in>set r. allowed E ch"
  proof (cases "?kept = []")
    case True
    with letters show ?thesis by (simp add: req allowed_def)
  next
    case False
    then show ?thesis by (auto simp: req dest: kept_allowed)
  qed
  then show "filter (allowed E) r = r" by (simp add: filter_id_conv)
qed

text \<open>
  The shape of every result of \<open>sanitize_username\<close> on a string: the surrounding
  whitespace is trimmed, only the characters that are letters or digits or one of space,
  underscore, hyphen, period and apostrophe are kept, the result is cut to 32 code
  points, and the literal name of the source is returned when nothing is left. The
  letters of the literal name are letters for the runtime's \<^verbatim>\<open>isalnum\<close>, which is the
  hypothesis.
\<close>

lemma sanitize_username_filters:
  assumes letters: "\<forall>ch\<in>set anonimo. isalnum E ch"
  shows "\<exists>r. sanitize_username E (Some (JStr s)) = Inr r
           \<and> r = (let kept = take 32 (filter (allowed E) (strip E s))
                  in if kept = [] then anonimo else kept)
           \<and> length r \<le> 32
           \<and> (\<forall>ch\<in>set r. allowed E ch)"
proof (intro exI conjI)
  let ?kept = "take 32 (filter (allowed E) (strip E s))"
  let ?r = "let kept = ?kept in if kept = [] then anonimo else kept"
  show "sanitize_username E (Some (JStr s)) = Inr ?r" by (rule sanitize_username_kept)
  show "?r = ?r" by (rule refl)
  show "length ?r \<le> 32"
    unfolding Let_def by (cases "?kept = []") (simp_all add: anonimo_facts(2))
  show "\<forall>ch\<in>set ?r. allowed E ch"
  proof
    fix ch assume ch: "ch \<in> set ?r"
    show "allowed E ch"
    proof (cases "?kept = []")
      case True
      with ch have "ch \<in> set anonimo" by (simp add: Let_def)
      with letters show ?thesis by (simp add: allowed_def)
    next
      case False
      with ch have "ch \<in> set ?kept" by (simp add: Let_def)
      then show ?thesis by (rule kept_allowed)
    qed
  qed
qed

subsection \<open>The rate limiter\<close>

lemma map_upt_Suc_shift: "map f [0..<Suc n] = f 0 # map (\<lambda>i. f (Suc i)) [0..<n]"
proof -
  have "[0..<Suc n] = 0 # map Suc [0..<n]"
    by (simp only: map_Suc_upt upt_conv_Cons [of 0 "Suc n"] zero_less_Suc)
  then show ?thesis by (simp add: comp_def)
qed

lemma rate_limit_ok_in_window:
  assumes "rate_bucket st ws = Some b" "clock st - window_start b \<le> RATE_WINDOW"
  shows "rate_limit_ok st ws =
           (if count b \<ge> RATE_MAX_MSGS then (False, st)
            else (True, st\<lparr>rate_bucket := (rate_bucket st)(ws \<mapsto> b\<lparr>count := count b + 1\<rparr>)\<rparr>))"
  using assms by (simp add: rate_limit_ok_def Let_def)

lemma bucket_reset: "(b::bucket)\<lparr>count := c, window_start := w\<rparr> = \<lparr>count = c, window_start = w\<rparr>"
  by (cases b) simp

lemma rate_limit_ok_elapsed:
  assumes "rate_bucket st ws = Some b" "clock st - window_start b > RATE_WINDOW"
  shows "rate_limit_ok st ws =
           (True, st\<lparr>rate_bucket := (rate_bucket st)(ws \<mapsto> \<lparr>count = 1, window_start = clock st\<rparr>)\<rparr>)"
  using assms by (simp add: rate_limit_ok_def Let_def bucket_reset)

lemma rate_limit_ok_rejects:
  "fst (rate_limit_ok st ws) = False \<Longrightarrow> rate_limit_ok st ws = (False, st)"
  by (auto simp: rate_limit_ok_def Let_def split: option.splits if_splits)

lemma arrivals_in_window:
  assumes "rate_bucket st ws = Some b" "\<forall>t\<in>set ts. t - window_start b \<le> RATE_WINDOW"
  shows "fst (arrivals st ws ts) = map (\<lambda>i. count b + i < RATE_MAX_MSGS) [0..<length ts]"
  using assms
proof (induction ts arbitrary: st b)
  case Nil
  then show ?case by simp
next
  case (Cons t ts)
  let ?st = "st\<lparr>clock := t\<rparr>"
  have b: "rate_bucket ?st ws = Some b" using Cons.prems(1) by simp
  have w: "clock ?st - window_start b \<le> RATE_WINDOW" using Cons.prems(2) by simp
  show ?case
  proof (cases "count b \<ge> RATE_MAX_MSGS")
    case True
    then have r: "rate_limit_ok ?st ws = (False, ?st)"
      by (simp add: rate_limit_ok_in_window [OF b w])
    have "fst (arrivals ?st ws ts) = map (\<lambda>i. count b + i < RATE_MAX_MSGS) [0..<length ts]"
      using Cons.IH [OF b] Cons.prems(2) by simp
    with True show ?thesis
      by (simp add: r map_upt_Suc_shift case_prod_unfold del: upt_Suc)
  next
    case False
    let ?b = "b\<lparr>count := count b + 1\<rparr>"
    let ?st' = "?st\<lparr>rate_bucket := (rate_bucket ?st)(ws \<mapsto> ?b)\<rparr>"
    from False have r: "rate_limit_ok ?st ws = (True, ?st')"
      by (simp add: rate_limit_ok_in_window [OF b w])
    have b': "rate_bucket ?st' ws = Some ?b" by simp
    have "fst (arrivals ?st' ws ts) = map (\<lambda>i. count ?b + i < RATE_MAX_MSGS) [0..<length ts]"
      using Cons.IH [OF b'] Cons.prems(2) by simp
    with False show ?thesis
      by (simp add: r map_upt_Suc_shift case_prod_unfold del: upt_Suc)
  qed
qed

lemma send_up: "up E ws \<Longrightarrow> send E st ws ev = Next (st\<lparr>trace := trace st @ [Sent ws ev]\<rparr>)"
  by (simp add: send_def attempt_def Let_def)

lemma send_down:
  "\<not> up E ws \<Longrightarrow> send E st ws ev = Raised ConnectionClosed (st\<lparr>trace := trace st @ [Failed ws ev]\<rparr>)"
  by (simp add: send_def attempt_def Let_def)

text \<open>
  Claim C3. The limiter is a fixed window per connection. While the clock stays within
  \<open>RATE_WINDOW\<close> of the bucket's \<open>window_start\<close>, the message that finds the count
  at \<open>k\<close> is allowed exactly when \<open>k < RATE_MAX_MSGS\<close>: from the fresh bucket of a
  registration the first ten messages are allowed and the eleventh is rejected. A message
  that arrives after the window has elapsed is allowed and sets the bucket to count 1
  and \<open>window_start\<close> to the current time in one step. On a rejection the handler sends
  one error event to the sender, leaves every table as it is and stays in its loop.
\<close>

theorem rate_limit_fixed_window:
  assumes bucket: "rate_bucket st ws = Some b"
  shows "((\<forall>t\<in>set ts. t - window_start b \<le> RATE_WINDOW) \<longrightarrow>
            fst (arrivals st ws ts) = map (\<lambda>i. count b + i < RATE_MAX_MSGS) [0..<length ts])
       \<and> (count b = 0 \<and> length ts = 11 \<and> (\<forall>t\<in>set ts. t - window_start b \<le> RATE_WINDOW) \<longrightarrow>
            fst (arrivals st ws ts) = replicate 10 True @ [False])
       \<and> (clock st - window_start b > RATE_WINDOW \<longrightarrow>
            rate_limit_ok st ws =
              (True, st\<lparr>rate_bucket :=
                        (rate_bucket st)(ws \<mapsto> \<lparr>count = 1, window_start = clock st\<rparr>)\<rparr>))
       \<and> (fst (rate_limit_ok st ws) = False \<and> up E ws \<longrightarrow>
            handle_client_message E iv st ws message =
              Continue (st\<lparr>trace := trace st @ [Sent ws (Error RateLimitExceeded)]\<rparr>))"
proof (intro conjI impI)
  assume "\<forall>t\<in>set ts. t - window_start b \<le> RATE_WINDOW"
  then show "fst (arrivals st ws ts) = map (\<lambda>i. count b + i < RATE_MAX_MSGS) [0..<length ts]"
    by (rule arrivals_in_window [OF bucket])
next
  assume a: "count b = 0 \<and> length ts = 11 \<and> (\<forall>t\<in>set ts. t - window_start b \<le> RATE_WINDOW)"
  then have "fst (arrivals st ws ts) = map (\<lambda>i. count b + i < RATE_MAX_MSGS) [0..<length ts]"
    by (simp add: arrivals_in_window [OF bucket])
  also have "\<dots> = map (\<lambda>i. i < 10) [0..<11]" using a by (simp add: RATE_MAX_MSGS_def)
  also have "\<dots> = replicate 10 True @ [False]" by (simp add: upt_rec numeral_eq_Suc)
  finally show "fst (arrivals st ws ts) = replicate 10 True @ [False]" .
next
  assume "clock st - window_start b > RATE_WINDOW"
  then show "rate_limit_ok st ws =
      (True, st\<lparr>rate_bucket := (rate_bucket st)(ws \<mapsto> \<lparr>count = 1, window_start = clock st\<rparr>)\<rparr>)"
    by (rule rate_limit_ok_elapsed [OF bucket])
next
  assume a: "fst (rate_limit_ok st ws) = False \<and> up E ws"
  then have "rate_limit_ok st ws = (False, st)" by (simp add: rate_limit_ok_rejects)
  with a show "handle_client_message E iv st ws message =
      Continue (st\<lparr>trace := trace st @ [Sent ws (Error RateLimitExceeded)]\<rparr>)"
    by (simp add: handle_client_message_def message_round_def send_up finish_def)
qed

theorem rate_limit_fixed_window_witness:
  "fst (arrivals (room \<lparr>count = 0, window_start = 0\<rparr> 0) 1 (replicate 10 100000 @ [200000]))
     = replicate 10 True @ [False]
   \<and> rate_limit_ok (room \<lparr>count = 10, window_start = 0\<rparr> 2100000) 1
     = (True, (room \<lparr>count = 10, window_start = 0\<rparr> 2100000)
                \<lparr>rate_bucket := [1 \<mapsto> \<lparr>count = 1, window_start = 2100000\<rparr>]\<rparr>)
   \<and> handle_client_message (toy_env (\<lambda>c. True)) 0
        (room \<lparr>count = 10, window_start = 0\<rparr> 200000) 1 Malformed
     = Continue ((room \<lparr>count = 10, window_start = 0\<rparr> 200000)
                   \<lparr>trace := [Sent 1 (Error RateLimitExceeded)]\<rparr>)"
proof -
  let ?fresh = "\<lparr>count = 0, window_start = 0\<rparr>"
  let ?full = "\<lparr>count = 10, window_start = 0\<rparr>"
  have b0: "rate_bucket (room ?fresh 0) 1 = Some ?fresh" by (simp add: room_def)
  have b1: "rate_bucket (room ?full 2100000) 1 = Some ?full" by (simp add: room_def)
  have b2: "rate_bucket (room ?full 200000) 1 = Some ?full" by (simp add: room_def)
  have within: "\<forall>t\<in>set (replicate 10 100000 @ [200000]). t - window_start ?fresh \<le> RATE_WINDOW"
    by (simp add: RATE_WINDOW_def)
  have elapsed: "clock (room ?full 2100000) - window_start ?full > RATE_WINDOW"
    by (simp add: room_def RATE_WINDOW_def)
  have rejected: "fst (rate_limit_ok (room ?full 200000) 1) = False"
    by (simp add: rate_limit_ok_def room_def RATE_WINDOW_def RATE_MAX_MSGS_def)
  have up: "up (toy_env (\<lambda>c. True)) 1" by (simp add: toy_env_def)
  have p1: "fst (arrivals (room ?fresh 0) 1 (replicate 10 100000 @ [200000])) = replicate 10 True @ [False]"
    using rate_limit_fixed_window [OF b0, of "replicate 10 100000 @ [200000]", THEN conjunct2, THEN conjunct1]
      within by simp
  have p2: "rate_limit_ok (room ?full 2100000) 1
     = (True, (room ?full 2100000)\<lparr>rate_bucket := [1 \<mapsto> \<lparr>count = 1, window_start = 2100000\<rparr>]\<rparr>)"
    using rate_limit_fixed_window [OF b1, THEN conjunct2, THEN conjunct2, THEN conjunct1] elapsed
    by (simp add: room_def)
  have p3: "handle_client_message (toy_env (\<lambda>c. True)) 0 (room ?full 200000) 1 Malformed
     = Continue ((room ?full 200000)\<lparr>trace := [Sent 1 (Error RateLimitExceeded)]\<rparr>)"
    using rate_limit_fixed_window [OF b2, of _ "toy_env (\<lambda>c. True)" 0 Malformed,
        THEN conjunct2, THEN conjunct2, THEN conjunct2] rejected up
    by (simp add: room_def)
  from p1 p2 p3 show ?thesis by (intro conjI)
qed

subsection \<open>Validation of a chat message\<close>

lemma rate_limit_ok_frame:
  assumes "rate_limit_ok st ws = (ok, st1)"
  shows "clients st1 = clients st" "client_names st1 = client_names st"
    "trace st1 = trace st" "clock st1 = clock st"
  using assms by (auto simp: rate_limit_ok_def Let_def split: option.splits if_splits)

lemma send_decrypt_irrelevant: "send (E\<lparr>decrypt := other\<rparr>) st ws ev = send E st ws ev"
  by (simp add: send_def attempt_def)

lemma message_round_chat:
  assumes "rate_limit_ok st ws = (True, st1)" "dict_items data = Some d"
    "map_of d (ascii ''type'') = Some (JStr (ascii ''chat_message''))"
  shows "message_round E iv st ws (Parsed data) =
     (case as_str (map_of d (ascii ''content'')) of
        None \<Rightarrow> send E st1 ws (Error ContentInvalid)
      | Some enc \<Rightarrow>
          if length enc = 0 \<or> length enc > MAX_ENCRYPTED_LEN
          then send E st1 ws (Error ContentInvalid)
          else (case decrypt E enc of
                  None \<Rightarrow> send E st1 ws (Error MessageInvalid)
                | Some dec \<Rightarrow>
                    if length dec = 0 \<or> length dec > MAX_PLAINTEXT_LEN
                    then send E st1 ws (Error MessageInvalid)
                    else Next (broadcast_message E st1
                           (ChatMessage (sender_name st1 ws) (encrypt E iv dec) (clock st1))
                           (Some ws) True)))"
  using assms by (simp add: message_round_def)

text \<open>
  Claim C4. For a chat message that has passed the rate limiter: a content that is no
  string, is empty or is longer than \<open>MAX_ENCRYPTED_LEN\<close> is rejected whatever the
  decryption function is, so before any decryption; a content that fails to decrypt
  gives an error value and no exception; a plaintext that is empty or longer than
  \<open>MAX_PLAINTEXT_LEN\<close> is rejected. Each rejection is one send of an error event to the
  sender, with the client set and the names untouched and no broadcast.
\<close>

theorem chat_message_validation:
  assumes admitted: "rate_limit_ok st ws = (True, st1)"
    and obj: "dict_items data = Some d"
    and kind: "map_of d (ascii ''type'') = Some (JStr (ascii ''chat_message''))"
  shows "(as_str (map_of d (ascii ''content'')) = None
          \<or> (\<exists>enc. as_str (map_of d (ascii ''content'')) = Some enc
                \<and> (enc = [] \<or> length enc > MAX_ENCRYPTED_LEN))
          \<longrightarrow> (\<forall>other. message_round (E\<lparr>decrypt := other\<rparr>) iv st ws (Parsed data)
                          = send E st1 ws (Error ContentInvalid)))
       \<and> (\<forall>enc. as_str (map_of d (ascii ''content'')) = Some enc
                \<and> enc \<noteq> [] \<and> length enc \<le> MAX_ENCRYPTED_LEN
                \<and> (decrypt E enc = None
                    \<or> (\<exists>dec. decrypt E enc = Some dec
                          \<and> (dec = [] \<or> length dec > MAX_PLAINTEXT_LEN)))
          \<longrightarrow> message_round E iv st ws (Parsed data) = send E st1 ws (Error MessageInvalid))
       \<and> (\<forall>e. send E st1 ws (Error e) =
                (if up E ws
                 then Next (st1\<lparr>trace := trace st @ [Sent ws (Error e)]\<rparr>)
                 else Raised ConnectionClosed (st1\<lparr>trace := trace st @ [Failed ws (Error e)]\<rparr>)))
       \<and> clients st1 = clients st \<and> client_names st1 = client_names st"
proof (intro conjI impI allI)
  fix other
  assume bad: "as_str (map_of d (ascii ''content'')) = None
          \<or> (\<exists>enc. as_str (map_of d (ascii ''content'')) = Some enc
                \<and> (enc = [] \<or> length enc > MAX_ENCRYPTED_LEN))"
  have "message_round (E\<lparr>decrypt := other\<rparr>) iv st ws (Parsed data)
          = send (E\<lparr>decrypt := other\<rparr>) st1 ws (Error ContentInvalid)"
    using bad by (auto simp: message_round_chat [OF admitted obj kind])
  then show "message_round (E\<lparr>decrypt := other\<rparr>) iv st ws (Parsed data)
          = send E st1 ws (Error ContentInvalid)"
    by (simp only: send_decrypt_irrelevant)
next
  fix enc
  assume "as_str (map_of d (ascii ''content'')) = Some enc
                \<and> enc \<noteq> [] \<and> length enc \<le> MAX_ENCRYPTED_LEN
                \<and> (decrypt E enc = None
                    \<or> (\<exists>dec. decrypt E enc = Some dec
                          \<and> (dec = [] \<or> length dec > MAX_PLAINTEXT_LEN)))"
  then show "message_round E iv st ws (Parsed data) = send E st1 ws (Error MessageInvalid)"
    by (auto simp: message_round_chat [OF admitted obj kind])
next
  fix e
  show "send E st1 ws (Error e) =
                (if up E ws
                 then Next (st1\<lparr>trace := trace st @ [Sent ws (Error e)]\<rparr>)
                 else Raised ConnectionClosed (st1\<lparr>trace := trace st @ [Failed ws (Error e)]\<rparr>))"
    by (simp add: send_up send_down rate_limit_ok_frame(3) [OF admitted])
next
  show "clients st1 = clients st" by (rule rate_limit_ok_frame(1) [OF admitted])
  show "client_names st1 = client_names st" by (rule rate_limit_ok_frame(2) [OF admitted])
qed

theorem chat_message_validation_witness:
  "message_round (toy_env (\<lambda>c. True)) 0 (room \<lparr>count = 0, window_start = 0\<rparr> 5) 1
       (chat_frame (JNum 7))
     = Next ((room \<lparr>count = 1, window_start = 0\<rparr> 5)\<lparr>trace := [Sent 1 (Error ContentInvalid)]\<rparr>)
   \<and> message_round (toy_env (\<lambda>c. True)) 0 (room \<lparr>count = 0, window_start = 0\<rparr> 5) 1
       (chat_frame (JStr [1, 2, 3]))
     = Next ((room \<lparr>count = 1, window_start = 0\<rparr> 5)\<lparr>trace := [Sent 1 (Error MessageInvalid)]\<rparr>)"
proof -
  let ?E = "toy_env (\<lambda>c. True)"
  let ?st = "room \<lparr>count = 0, window_start = 0\<rparr> 5"
  let ?st1 = "room \<lparr>count = 1, window_start = 0\<rparr> 5"
  let ?d1 = "[(ascii ''type'', JStr (ascii ''chat_message'')), (ascii ''content'', JNum 7)]"
  let ?d2 = "[(ascii ''type'', JStr (ascii ''chat_message'')), (ascii ''content'', JStr [1, 2, 3])]"
  have admitted: "rate_limit_ok ?st 1 = (True, ?st1)"
    by (simp add: rate_limit_ok_def room_def RATE_WINDOW_def RATE_MAX_MSGS_def)
  have kind1: "map_of ?d1 (ascii ''type'') = Some (JStr (ascii ''chat_message''))" by simp
  have kind2: "map_of ?d2 (ascii ''type'') = Some (JStr (ascii ''chat_message''))" by simp
  have c1: "as_str (map_of ?d1 (ascii ''content'')) = None" by (simp add: ascii_def)
  have c2: "as_str (map_of ?d2 (ascii ''content'')) = Some [1, 2, 3]" by (simp add: ascii_def)
  have garbage: "decrypt ?E [1, 2, 3] = None" by (simp add: toy_env_def)
  have up: "up ?E 1" by (simp add: toy_env_def)
  have same: "?E\<lparr>decrypt := decrypt ?E\<rparr> = ?E" by simp
  have obj1: "dict_items (JObj ?d1) = Some ?d1" and obj2: "dict_items (JObj ?d2) = Some ?d2"
    by simp_all
  have size: "[1, 2, 3] \<noteq> ([] :: ustr) \<and> length [1, 2, 3 :: nat] \<le> MAX_ENCRYPTED_LEN"
    by (simp add: MAX_ENCRYPTED_LEN_def MAX_PLAINTEXT_LEN_def)
  have a1: "\<forall>other. message_round (?E\<lparr>decrypt := other\<rparr>) 0 ?st 1 (Parsed (JObj ?d1))
              = send ?E ?st1 1 (Error ContentInvalid)"
    using chat_message_validation [OF admitted obj1 kind1, of ?E 0] c1 by blast
  have a2: "message_round ?E 0 ?st 1 (Parsed (JObj ?d2)) = send ?E ?st1 1 (Error MessageInvalid)"
    using chat_message_validation [OF admitted obj2 kind2, of ?E 0] c2 garbage size by blast
  have s: "\<forall>e. send ?E ?st1 1 (Error e) =
                (if up ?E 1
                 then Next (?st1\<lparr>trace := trace ?st @ [Sent 1 (Error e)]\<rparr>)
                 else Raised ConnectionClosed (?st1\<lparr>trace := trace ?st @ [Failed 1 (Error e)]\<rparr>))"
    using chat_message_validation [OF admitted obj1 kind1, of ?E 0] by blast
  from a1 have "message_round (?E\<lparr>decrypt := decrypt ?E\<rparr>) 0 ?st 1 (Parsed (JObj ?d1))
              = send ?E ?st1 1 (Error ContentInvalid)" by (rule spec)
  then have a1': "message_round ?E 0 ?st 1 (Parsed (JObj ?d1))
              = send ?E ?st1 1 (Error ContentInvalid)" by (simp only: same)
  have t: "trace ?st = []" by (simp add: room_def)
  have p1: "message_round ?E 0 ?st 1 (chat_frame (JNum 7))
              = Next (?st1\<lparr>trace := [Sent 1 (Error ContentInvalid)]\<rparr>)"
    using a1' s up by (simp add: chat_frame_def t)
  have p2: "message_round ?E 0 ?st 1 (chat_frame (JStr [1, 2, 3]))
              = Next (?st1\<lparr>trace := [Sent 1 (Error MessageInvalid)]\<rparr>)"
    using a2 s up by (simp add: chat_frame_def t)
  from p1 p2 show ?thesis by (intro conjI)
qed

subsection \<open>Broadcast and cleanup\<close>

lemma forget_fields [simp]:
  "clients (forget st w) = removeAll w (clients st)"
  "client_names (forget st w) = AList.delete w (client_names st)"
  "rate_bucket (forget st w) = (rate_bucket st)(w := None)"
  "trace (forget st w) = trace st"
  "clock (forget st w) = clock st"
  by (simp_all add: forget_def)

lemma send_all_fields [simp]:
  "clients (send_all E st ev x e) = clients st"
  "client_names (send_all E st ev x e) = client_names st"
  "rate_bucket (send_all E st ev x e) = rate_bucket st"
  "trace (send_all E st ev x e) = trace st @ map (attempt E ev) (targets st x e)"
  "clock (send_all E st ev x e) = clock st"
  by (simp_all add: send_all_def)

lemma targets_all [simp]: "targets st None e = clients st" "targets st x True = clients st"
  by (simp_all add: targets_def)

lemma attempt_fields [simp]: "io_conn (attempt E ev c) = c" "io_event (attempt E ev c) = ev"
  by (simp_all add: attempt_def)

lemma cleanup_Cons:
  "cleanup E (w # p) st =
     (if w \<in> set (clients st)
      then if removeAll w (clients st) = [] then cleanup E p (forget st w)
           else cleanup E (disconnected E (forget st w) None True @ p)
                  (send_all E (forget st w) (UserLeft (left_name st w) (clock st)) None True)
      else cleanup E p st)"
  by (simp add: Let_def)

lemma cleanup_append: "cleanup E (xs @ ys) st = cleanup E ys (cleanup E xs st)"
proof (induction E xs st rule: cleanup.induct)
  case (1 E st)
  show ?case by simp
next
  case (2 E w p st)
  show ?case
  proof (cases "w \<in> set (clients st)")
    case False
    with 2 show ?thesis by (simp add: Let_def)
  next
    case True
    show ?thesis
    proof (cases "removeAll w (clients st) = []")
      case True
      with \<open>w \<in> set (clients st)\<close> 2(1) show ?thesis by (simp add: Let_def)
    next
      case False
      with \<open>w \<in> set (clients st)\<close> 2(2) show ?thesis by (simp add: Let_def)
    qed
  qed
qed

lemma unregister_client_eq:
  "unregister_client E st ws =
     (if ws \<in> set (clients st)
      then broadcast_message E (forget st ws) (UserLeft (left_name st ws) (clock st)) None True
      else st)"
  by (simp add: unregister_client_def broadcast_message_def Let_def)

lemma cleanup_foldl: "cleanup E ds st = foldl (unregister_client E) st ds"
proof (induction ds arbitrary: st)
  case Nil
  show ?case by simp
next
  case (Cons d ds)
  have "cleanup E (d # ds) st = cleanup E ds (cleanup E [d] st)"
    using cleanup_append [of E "[d]" ds st] by simp
  then show ?case by (simp add: Cons.IH unregister_client_def)
qed

lemma broadcast_message_eq:
  "broadcast_message E st message exclude echo =
     (if clients st = [] then st
      else foldl (unregister_client E) (send_all E st message exclude echo)
             (disconnected E st exclude echo))"
  by (simp add: broadcast_message_def cleanup_foldl)

lemma cleanup_clock [simp]: "clock (cleanup E ds st) = clock st"
  by (induction E ds st rule: cleanup.induct) (simp_all add: Let_def)

lemma cleanup_clients_subset: "set (clients (cleanup E ds st)) \<subseteq> set (clients st)"
proof (induction E ds st rule: cleanup.induct)
  case (1 E st)
  show ?case by simp
next
  case (2 E w p st)
  show ?case
  proof (cases "w \<in> set (clients st)")
    case False
    with 2 show ?thesis by (simp add: Let_def)
  next
    case True
    show ?thesis
    proof (cases "removeAll w (clients st) = []")
      case True
      with \<open>w \<in> set (clients st)\<close> 2(1) show ?thesis by (auto simp: Let_def)
    next
      case False
      with \<open>w \<in> set (clients st)\<close> 2(2) show ?thesis by (auto simp: Let_def)
    qed
  qed
qed

declare cleanup.simps(2) [simp del]

lemma cleanup_cases [case_names Nil Skip Last More]:
  assumes "\<And>E st. P E [] st"
    and "\<And>E w p st. w \<notin> set (clients st) \<Longrightarrow> P E p st \<Longrightarrow> P E (w # p) st"
    and "\<And>E w p st. w \<in> set (clients st) \<Longrightarrow> removeAll w (clients st) = [] \<Longrightarrow>
           P E p (forget st w) \<Longrightarrow> P E (w # p) st"
    and "\<And>E w p st. w \<in> set (clients st) \<Longrightarrow> removeAll w (clients st) \<noteq> [] \<Longrightarrow>
           P E (disconnected E (forget st w) None True @ p)
             (send_all E (forget st w) (UserLeft (left_name st w) (clock st)) None True) \<Longrightarrow>
           P E (w # p) st"
  shows "P E ds st"
proof (induction E ds st rule: cleanup.induct)
  case (1 E st)
  show ?case by (rule assms(1))
next
  case (2 E w p st)
  show ?case
  proof (cases "w \<in> set (clients st)")
    case False
    with 2(3) show ?thesis by (intro assms(2)) simp_all
  next
    case True
    show ?thesis
    proof (cases "removeAll w (clients st) = []")
      case True
      with \<open>w \<in> set (clients st)\<close> 2(1) show ?thesis by (intro assms(3)) simp_all
    next
      case False
      with \<open>w \<in> set (clients st)\<close> 2(2) show ?thesis by (intro assms(4)) simp_all
    qed
  qed
qed

lemma cleanup_trace:
  "\<exists>ext. trace (cleanup E ds st) = trace st @ ext
         \<and> (\<forall>io\<in>set ext. io_conn io \<in> set (clients st) \<and> (\<exists>n t. io_event io = UserLeft n t))"
proof (induction E ds st rule: cleanup_cases)
  case (Nil E st)
  show ?case by simp
next
  case (Skip E w p st)
  then show ?case by (simp add: cleanup_Cons)
next
  case (Last E w p st)
  then show ?case by (simp add: cleanup_Cons)
next
  case (More E w p st)
  let ?ev = "UserLeft (left_name st w) (clock st)"
  from More(3) obtain ext where
    t: "trace (cleanup E (disconnected E (forget st w) None True @ p)
               (send_all E (forget st w) ?ev None True))
          = (trace st @ map (attempt E ?ev) (removeAll w (clients st))) @ ext"
    and r: "\<forall>io\<in>set ext. io_conn io \<in> set (removeAll w (clients st))
                \<and> (\<exists>n t. io_event io = UserLeft n t)"
    by auto
  let ?ext = "map (attempt E ?ev) (removeAll w (clients st)) @ ext"
  have "trace (cleanup E (w # p) st) = trace st @ ?ext"
    using More(1,2) t by (simp add: cleanup_Cons)
  moreover have "\<forall>io\<in>set ?ext. io_conn io \<in> set (clients st) \<and> (\<exists>n t. io_event io = UserLeft n t)"
    using r by auto
  ultimately show ?case by blast
qed

lemma cleanup_removes: "d \<in> set ds \<Longrightarrow> d \<notin> set (clients (cleanup E ds st))"
proof (induction E ds st rule: cleanup_cases)
  case (Nil E st)
  then show ?case by simp
next
  case (Skip E w p st)
  show ?case
  proof (cases "d = w")
    case True
    with Skip(1) cleanup_clients_subset [of E p st] show ?thesis
      by (auto simp: cleanup_Cons)
  next
    case False
    with Skip show ?thesis by (simp add: cleanup_Cons)
  qed
next
  case (Last E w p st)
  show ?case
  proof (cases "d = w")
    case True
    with Last(1,2) cleanup_clients_subset [of E p "forget st w"] show ?thesis
      by (auto simp: cleanup_Cons)
  next
    case False
    with Last show ?thesis by (simp add: cleanup_Cons)
  qed
next
  case (More E w p st)
  let ?st2 = "send_all E (forget st w) (UserLeft (left_name st w) (clock st)) None True"
  let ?ds = "disconnected E (forget st w) None True @ p"
  show ?case
  proof (cases "d = w")
    case True
    have "w \<notin> set (clients ?st2)" by simp
    with cleanup_clients_subset [of E ?ds ?st2] have "w \<notin> set (clients (cleanup E ?ds ?st2))"
      by blast
    with True More(1,2) show ?thesis by (simp add: cleanup_Cons)
  next
    case False
    with More show ?thesis by (simp add: cleanup_Cons)
  qed
qed

lemma cleanup_keeps:
  "c \<in> set (clients st) \<Longrightarrow> up E c \<Longrightarrow> c \<notin> set ds \<Longrightarrow>
     c \<in> set (clients (cleanup E ds st))
     \<and> map_of (client_names (cleanup E ds st)) c = map_of (client_names st) c
     \<and> rate_bucket (cleanup E ds st) c = rate_bucket st c"
proof (induction E ds st rule: cleanup_cases)
  case (Nil E st)
  then show ?case by simp
next
  case (Skip E w p st)
  then show ?case by (simp add: cleanup_Cons)
next
  case (Last E w p st)
  from Last.prems(1,3) have "c \<in> set (removeAll w (clients st))" by simp
  with Last.hyps(2) show ?case by simp
next
  case (More E w p st)
  then show ?case by (simp add: cleanup_Cons delete_conv' disconnected_def)
qed

lemma broadcast_message_trace:
  assumes "clients st \<noteq> []"
  shows "\<exists>ext. trace (broadcast_message E st message exclude echo)
             = trace st @ map (attempt E message) (targets st exclude echo) @ ext
           \<and> (\<forall>io\<in>set ext. io_conn io \<in> set (clients st) \<and> (\<exists>n t. io_event io = UserLeft n t))"
proof -
  from cleanup_trace [of E "disconnected E st exclude echo" "send_all E st message exclude echo"]
  obtain ext where
    "trace (cleanup E (disconnected E st exclude echo) (send_all E st message exclude echo))
       = trace (send_all E st message exclude echo) @ ext"
    and "\<forall>io\<in>set ext. io_conn io \<in> set (clients (send_all E st message exclude echo))
            \<and> (\<exists>n t. io_event io = UserLeft n t)"
    by blast
  with assms show ?thesis by (simp add: broadcast_message_def)
qed

lemma attempt_up: "up E c \<Longrightarrow> attempt E ev c = Sent c ev"
  by (simp add: attempt_def)

text \<open>
  A broadcast that no other handler disturbs, over a non-empty client set: it first
  attempts the send on every connection it targets, whatever fails on the way, so the
  trace grows by one attempt per target, in order, and every target that can be
  reached has received the message. The connections whose send failed are collected,
  and only after the loop is each of them passed to \<open>unregister_client\<close>; none of
  them is registered afterwards.
\<close>

theorem broadcast_message_fan_out:
  assumes "clients st \<noteq> []"
  shows "broadcast_message E st message exclude echo
           = foldl (unregister_client E) (send_all E st message exclude echo)
               (disconnected E st exclude echo)
       \<and> trace (send_all E st message exclude echo)
           = trace st @ map (attempt E message) (targets st exclude echo)
       \<and> (\<exists>ext. trace (broadcast_message E st message exclude echo)
                  = trace (send_all E st message exclude echo) @ ext)
       \<and> (\<forall>c\<in>set (targets st exclude echo). up E c \<longrightarrow>
              Sent c message \<in> set (trace (broadcast_message E st message exclude echo)))
       \<and> (\<forall>c\<in>set (disconnected E st exclude echo).
              c \<notin> set (clients (broadcast_message E st message exclude echo)))"
proof (intro conjI ballI impI)
  show "broadcast_message E st message exclude echo
           = foldl (unregister_client E) (send_all E st message exclude echo)
               (disconnected E st exclude echo)"
    using assms by (simp add: broadcast_message_eq)
  show "trace (send_all E st message exclude echo)
           = trace st @ map (attempt E message) (targets st exclude echo)"
    by simp
  from broadcast_message_trace [OF assms, of E message exclude echo]
  obtain ext where t: "trace (broadcast_message E st message exclude echo)
             = trace st @ map (attempt E message) (targets st exclude echo) @ ext"
    by blast
  then show "\<exists>ext. trace (broadcast_message E st message exclude echo)
                  = trace (send_all E st message exclude echo) @ ext"
    by simp
  fix c
  {
    assume "c \<in> set (targets st exclude echo)" "up E c"
    then have "Sent c message \<in> set (map (attempt E message) (targets st exclude echo))"
      by (auto simp: attempt_up image_iff intro!: bexI [of _ c])
    with t show "Sent c message \<in> set (trace (broadcast_message E st message exclude echo))"
      by simp
  }
  {
    assume "c \<in> set (disconnected E st exclude echo)"
    then show "c \<notin> set (clients (broadcast_message E st message exclude echo))"
      using assms by (simp add: broadcast_message_def cleanup_removes)
  }
qed

theorem broadcast_message_fan_out_witness:
  "trace (broadcast_message (toy_env (\<lambda>c. c = 3)) lobby (Error JsonInvalid) (Some 1) True)
     = [Failed 1 (Error JsonInvalid), Failed 2 (Error JsonInvalid), Sent 3 (Error JsonInvalid),
        Failed 2 (UserLeft (ascii ''Ana'') 9), Sent 3 (UserLeft (ascii ''Ana'') 9),
        Sent 3 (UserLeft (ascii ''Bob'') 9)]
   \<and> clients (broadcast_message (toy_env (\<lambda>c. c = 3)) lobby (Error JsonInvalid) (Some 1) True) = [3]"
proof -
  let ?E = "toy_env (\<lambda>c. c = 3)"
  have ne: "clients lobby \<noteq> []" by (simp add: lobby_def)
  have "broadcast_message ?E lobby (Error JsonInvalid) (Some 1) True
          = foldl (unregister_client ?E) (send_all ?E lobby (Error JsonInvalid) (Some 1) True)
              (disconnected ?E lobby (Some 1) True)"
    using broadcast_message_fan_out [OF ne, of ?E "Error JsonInvalid" "Some 1" True] by blast
  then show ?thesis
    by (simp add: lobby_def toy_env_def send_all_def disconnected_def targets_def attempt_def
        unregister_client_def cleanup_Cons forget_def left_name_def)
qed

text \<open>
  Unregistering a registered connection, undisturbed by other handlers: it is first
  taken out of the client set (and of the names and the buckets), and only then is its
  leave notice broadcast, to the connections that remain. The trace grows by one
  attempt of that notice per remaining connection, and nothing that follows, the
  notice or the cleanup of connections found dead on the way, is addressed to the
  connection that left.
\<close>

theorem unregister_client_notice:
  assumes "ws \<in> set (clients st)"
  shows "unregister_client E st ws
           = broadcast_message E (forget st ws) (UserLeft (left_name st ws) (clock st)) None True
       \<and> clients (forget st ws) = removeAll ws (clients st)
       \<and> (\<exists>ext. trace (unregister_client E st ws)
                  = trace st
                    @ map (attempt E (UserLeft (left_name st ws) (clock st)))
                        (removeAll ws (clients st))
                    @ ext
                \<and> (\<forall>io\<in>set ext. io_conn io \<noteq> ws))
       \<and> ws \<notin> set (clients (unregister_client E st ws))"
proof (intro conjI)
  let ?ev = "UserLeft (left_name st ws) (clock st)"
  show eq: "unregister_client E st ws = broadcast_message E (forget st ws) ?ev None True"
    using assms by (simp add: unregister_client_eq)
  show "clients (forget st ws) = removeAll ws (clients st)" by simp
  show "\<exists>ext. trace (unregister_client E st ws)
                  = trace st @ map (attempt E ?ev) (removeAll ws (clients st)) @ ext
                \<and> (\<forall>io\<in>set ext. io_conn io \<noteq> ws)"
  proof (cases "removeAll ws (clients st) = []")
    case True
    then show ?thesis by (simp add: eq broadcast_message_def)
  next
    case False
    then have "clients (forget st ws) \<noteq> []" by simp
    from broadcast_message_trace [OF this, of E ?ev None True]
    obtain ext where "trace (broadcast_message E (forget st ws) ?ev None True)
           = trace st @ map (attempt E ?ev) (removeAll ws (clients st)) @ ext"
      and "\<forall>io\<in>set ext. io_conn io \<in> set (removeAll ws (clients st))"
      by auto
    then show ?thesis by (auto simp: eq)
  qed
  show "ws \<notin> set (clients (unregister_client E st ws))"
    by (simp add: unregister_client_def cleanup_removes)
qed

theorem unregister_client_notice_witness:
  "trace (unregister_client (toy_env (\<lambda>c. True)) lobby 2)
     = [Sent 1 (UserLeft (ascii ''Bob'') 9), Sent 3 (UserLeft (ascii ''Bob'') 9)]
   \<and> clients (unregister_client (toy_env (\<lambda>c. True)) lobby 2) = [1, 3]"
proof -
  let ?E = "toy_env (\<lambda>c. True)"
  have reg: "2 \<in> set (clients lobby)" by (simp add: lobby_def)
  have "unregister_client ?E lobby 2
          = broadcast_message ?E (forget lobby 2) (UserLeft (left_name lobby 2) (clock lobby)) None True"
    using unregister_client_notice [OF reg, of ?E] by blast
  then show ?thesis
    by (simp add: lobby_def toy_env_def broadcast_message_def send_all_def disconnected_def
        targets_def attempt_def forget_def left_name_def)
qed

subsection \<open>The relay\<close>

lemma sender_name_frame:
  "client_names st1 = client_names st \<Longrightarrow> sender_name st1 ws = sender_name st ws"
  by (simp add: sender_name_def)

lemma broadcast_message_new:
  "\<exists>new. trace (broadcast_message E st message exclude echo) = trace st @ new
         \<and> (\<forall>io\<in>set new. io_event io = message \<or> (\<exists>n t. io_event io = UserLeft n t))"
proof (cases "clients st = []")
  case True
  then show ?thesis by (simp add: broadcast_message_def)
next
  case False
  from broadcast_message_trace [OF this, of E message exclude echo]
  obtain ext where t: "trace (broadcast_message E st message exclude echo)
             = trace st @ map (attempt E message) (targets st exclude echo) @ ext"
    and l: "\<forall>io\<in>set ext. \<exists>n t. io_event io = UserLeft n t"
    by blast
  let ?new = "map (attempt E message) (targets st exclude echo) @ ext"
  have "\<forall>io\<in>set ?new. io_event io = message \<or> (\<exists>n t. io_event io = UserLeft n t)"
    using l by auto
  with t show ?thesis by blast
qed

lemma broadcast_message_reaches:
  assumes "c \<in> set (targets st exclude echo)" "up E c"
  shows "Sent c message \<in> set (trace (broadcast_message E st message exclude echo))"
proof -
  from assms(1) have ne: "clients st \<noteq> []" by (auto simp: targets_def)
  from broadcast_message_trace [OF ne, of E message exclude echo]
  obtain ext where t: "trace (broadcast_message E st message exclude echo)
             = trace st @ map (attempt E message) (targets st exclude echo) @ ext"
    by blast
  from assms have "Sent c message \<in> set (map (attempt E message) (targets st exclude echo))"
    by (auto simp: attempt_up image_iff intro!: bexI [of _ c])
  with t show ?thesis by simp
qed

text \<open>
  Claim C7. A chat message that passes validation is broadcast with a content that is
  \<open>encrypt\<close> applied to the validated plaintext, under fresh randomness. Every chat
  event sent in that round carries this content, and every registered connection that
  can be reached receives it; so, for a cipher whose decryption inverts its
  encryption, each recipient decrypts the broadcast to the sender's plaintext. The
  ciphertext the sender submitted is not what is sent on.
\<close>

theorem relay_reencrypts:
  assumes admitted: "rate_limit_ok st ws = (True, st1)"
    and obj: "dict_items data = Some d"
    and kind: "map_of d (ascii ''type'') = Some (JStr (ascii ''chat_message''))"
    and content: "as_str (map_of d (ascii ''content'')) = Some enc"
    and size: "enc \<noteq> []" "length enc \<le> MAX_ENCRYPTED_LEN"
    and plain: "decrypt E enc = Some dec" "dec \<noteq> []" "length dec \<le> MAX_PLAINTEXT_LEN"
    and roundtrip: "\<forall>r p. decrypt E (encrypt E r p) = Some p"
  shows "\<exists>st'. message_round E iv st ws (Parsed data) = Next st'
           \<and> st' = broadcast_message E st1
                     (ChatMessage (sender_name st ws) (encrypt E iv dec) (clock st)) (Some ws) True
           \<and> (\<exists>new. trace st' = trace st @ new
                 \<and> (\<forall>c name sent t. Sent c (ChatMessage name sent t) \<in> set new \<longrightarrow>
                        sent = encrypt E iv dec \<and> decrypt E sent = Some dec))
           \<and> (\<forall>c\<in>set (clients st). up E c \<longrightarrow>
                 Sent c (ChatMessage (sender_name st ws) (encrypt E iv dec) (clock st))
                   \<in> set (trace st'))"
proof -
  let ?ev = "ChatMessage (sender_name st ws) (encrypt E iv dec) (clock st)"
  let ?st' = "broadcast_message E st1 ?ev (Some ws) True"
  note frame = rate_limit_ok_frame [OF admitted]
  have round: "message_round E iv st ws (Parsed data) = Next ?st'"
    using content size plain
    by (simp add: message_round_chat [OF admitted obj kind] frame(4) sender_name_frame [OF frame(2)])
  from broadcast_message_new [of E st1 ?ev "Some ws" True]
  obtain new where t: "trace ?st' = trace st @ new"
    and n: "\<forall>io\<in>set new. io_event io = ?ev \<or> (\<exists>n t. io_event io = UserLeft n t)"
    by (auto simp: frame)
  have sent: "\<forall>c name sent t. Sent c (ChatMessage name sent t) \<in> set new \<longrightarrow>
                 sent = encrypt E iv dec \<and> decrypt E sent = Some dec"
  proof (intro allI impI)
    fix c name sent t
    assume "Sent c (ChatMessage name sent t) \<in> set new"
    with n have "io_event (Sent c (ChatMessage name sent t)) = ?ev
        \<or> (\<exists>n t'. io_event (Sent c (ChatMessage name sent t)) = UserLeft n t')" by blast
    then have "sent = encrypt E iv dec" by simp
    with roundtrip show "sent = encrypt E iv dec \<and> decrypt E sent = Some dec" by simp
  qed
  have reach: "\<forall>c\<in>set (clients st). up E c \<longrightarrow> Sent c ?ev \<in> set (trace ?st')"
  proof (intro ballI impI)
    fix c assume "c \<in> set (clients st)" "up E c"
    then show "Sent c ?ev \<in> set (trace ?st')"
      by (intro broadcast_message_reaches) (simp_all add: frame)
  qed
  show ?thesis
    by (rule exI [of _ ?st'], intro conjI, rule round, rule refl, rule exI [of _ new], intro conjI, rule t, rule sent, rule reach)
qed


theorem relay_reencrypts_witness:
  "message_round (toy_env (\<lambda>c. True)) 7 lobby 1 (chat_frame (JStr (toy_encrypt 1 (ascii ''hola''))))
     = Next (lobby\<lparr>rate_bucket := (rate_bucket lobby)(1 \<mapsto> \<lparr>count = 1, window_start = 0\<rparr>),
                  trace := [Sent 1 (ChatMessage (ascii ''Ana'') (toy_encrypt 7 (ascii ''hola'')) 9),
                            Sent 2 (ChatMessage (ascii ''Ana'') (toy_encrypt 7 (ascii ''hola'')) 9),
                            Sent 3 (ChatMessage (ascii ''Ana'') (toy_encrypt 7 (ascii ''hola'')) 9)]\<rparr>)
   \<and> toy_decrypt (toy_encrypt 7 (ascii ''hola'')) = Some (ascii ''hola'')
   \<and> toy_encrypt 7 (ascii ''hola'') \<noteq> toy_encrypt 1 (ascii ''hola'')"
proof -
  let ?E = "toy_env (\<lambda>c. True)"
  let ?enc = "toy_encrypt 1 (ascii ''hola'')"
  let ?d = "[(ascii ''type'', JStr (ascii ''chat_message'')), (ascii ''content'', JStr ?enc)]"
  let ?st1 = "lobby\<lparr>rate_bucket := (rate_bucket lobby)(1 \<mapsto> \<lparr>count = 1, window_start = 0\<rparr>)\<rparr>"
  have admitted: "rate_limit_ok lobby 1 = (True, ?st1)"
    by (simp add: rate_limit_ok_def lobby_def RATE_WINDOW_def RATE_MAX_MSGS_def)
  have obj: "dict_items (JObj ?d) = Some ?d" by simp
  have kind: "map_of ?d (ascii ''type'') = Some (JStr (ascii ''chat_message''))" by simp
  have content: "as_str (map_of ?d (ascii ''content'')) = Some ?enc" by (simp add: ascii_def)
  have size: "?enc \<noteq> []" "length ?enc \<le> MAX_ENCRYPTED_LEN"
    by (simp_all add: toy_encrypt_def ascii_def MAX_ENCRYPTED_LEN_def MAX_PLAINTEXT_LEN_def)
  have plain: "decrypt ?E ?enc = Some (ascii ''hola'')" "ascii ''hola'' \<noteq> []"
    "length (ascii ''hola'') \<le> MAX_PLAINTEXT_LEN"
    by (simp_all add: toy_env_def toy_encrypt_def ascii_def MAX_PLAINTEXT_LEN_def)
  have roundtrip: "\<forall>r p. decrypt ?E (encrypt ?E r p) = Some p"
    by (simp add: toy_env_def toy_encrypt_def)
  from relay_reencrypts [OF admitted obj kind content size plain roundtrip, of 7]
  have "message_round ?E 7 lobby 1 (Parsed (JObj ?d))
          = Next (broadcast_message ?E ?st1
                    (ChatMessage (sender_name lobby 1) (encrypt ?E 7 (ascii ''hola'')) (clock lobby))
                    (Some 1) True)"
    by blast
  then have p1: "message_round ?E 7 lobby 1 (chat_frame (JStr ?enc))
     = Next (lobby\<lparr>rate_bucket := (rate_bucket lobby)(1 \<mapsto> \<lparr>count = 1, window_start = 0\<rparr>),
                  trace := [Sent 1 (ChatMessage (ascii ''Ana'') (toy_encrypt 7 (ascii ''hola'')) 9),
                            Sent 2 (ChatMessage (ascii ''Ana'') (toy_encrypt 7 (ascii ''hola'')) 9),
                            Sent 3 (ChatMessage (ascii ''Ana'') (toy_encrypt 7 (ascii ''hola'')) 9)]\<rparr>)"
    by (simp add: chat_frame_def lobby_def toy_env_def broadcast_message_def send_all_def
        disconnected_def targets_def attempt_def sender_name_def)
  have p2: "toy_decrypt (toy_encrypt 7 (ascii ''hola'')) = Some (ascii ''hola'')"
    by (simp add: toy_encrypt_def)
  have p3: "toy_encrypt 7 (ascii ''hola'') \<noteq> toy_encrypt 1 (ascii ''hola'')"
    by (simp add: toy_encrypt_def)
  from p1 p2 p3 show ?thesis by (intro conjI)
qed

subsection \<open>Registration\<close>

lemma broadcast_message_keeps:
  assumes "c \<in> set (clients st)" "up E c"
  shows "c \<in> set (clients (broadcast_message E st message exclude echo))"
    and "map_of (client_names (broadcast_message E st message exclude echo)) c
           = map_of (client_names st) c"
    and "rate_bucket (broadcast_message E st message exclude echo) c = rate_bucket st c"
proof -
  let ?ds = "disconnected E st exclude echo"
  let ?st = "send_all E st message exclude echo"
  have "c \<in> set (clients ?st)" using assms(1) by simp
  moreover have "c \<notin> set ?ds" using assms(2) by (simp add: disconnected_def)
  ultimately have k: "c \<in> set (clients (cleanup E ?ds ?st))
     \<and> map_of (client_names (cleanup E ?ds ?st)) c = map_of (client_names ?st) c
     \<and> rate_bucket (cleanup E ?ds ?st) c = rate_bucket ?st c"
    using assms(2) by (intro cleanup_keeps)
  from assms(1) have ne: "clients st \<noteq> []" by auto
  from k ne show "c \<in> set (clients (broadcast_message E st message exclude echo))"
    by (simp add: broadcast_message_def)
  from k ne show "map_of (client_names (broadcast_message E st message exclude echo)) c
           = map_of (client_names st) c"
    by (simp add: broadcast_message_def)
  from k ne show "rate_bucket (broadcast_message E st message exclude echo) c = rate_bucket st c"
    by (simp add: broadcast_message_def)
qed

lemma set_add_member: "ws \<in> set (set_add ws cs)"
  by (simp add: set_add_def)

lemma set_add_others: "filter (\<lambda>c. c \<noteq> ws) (set_add ws cs) = filter (\<lambda>c. c \<noteq> ws) cs"
  by (simp add: set_add_def)

lemma registration_success:
  assumes obj: "dict_items data = Some d"
    and kind: "map_of d (ascii ''type'') = Some (JStr (ascii ''register''))"
    and name: "sanitize_username E (map_of d (ascii ''username'')) = Inr name"
    and up: "up E ws"
  shows "\<exists>st3 ext.
           handle_client_first E st ws (Parsed data)
             = Continue (st3\<lparr>trace := trace st3 @ [Sent ws (UserList (map snd (client_names st3)))]\<rparr>)
         \<and> trace st3 = trace st @ [Sent ws EncryptionKey]
                          @ map (attempt E (UserJoined name (clock st))) (set_add ws (clients st))
                          @ ext
         \<and> (\<forall>io\<in>set ext. \<exists>n t. io_event io = UserLeft n t)
         \<and> ws \<in> set (clients st3)
         \<and> map_of (client_names st3) ws = Some name"
proof -
  define st2 where "st2 =
    st\<lparr>clients := set_add ws (clients st),
       client_names := AList.update ws name (client_names st),
       rate_bucket := (rate_bucket st)(ws \<mapsto> \<lparr>count = 0, window_start = clock st\<rparr>),
       trace := trace st @ [Sent ws EncryptionKey]\<rparr>"
  define st3 where "st3 = broadcast_message E st2 (UserJoined name (clock st)) None False"
  have reg: "register_client E st ws name = Next st3"
    using up by (simp add: register_client_def send_up st2_def st3_def)
  have first: "handle_client_first E st ws (Parsed data)
      = Continue (st3\<lparr>trace := trace st3 @ [Sent ws (UserList (map snd (client_names st3)))]\<rparr>)"
    using obj kind name up
    by (simp add: handle_client_first_def registration_def reg send_up finish_def)
  have in2: "ws \<in> set (clients st2)" by (simp add: st2_def set_add_member)
  then have ne: "clients st2 \<noteq> []" by auto
  from broadcast_message_trace [OF ne, of E "UserJoined name (clock st)" None False]
  obtain ext where t: "trace st3 = trace st2
        @ map (attempt E (UserJoined name (clock st))) (targets st2 None False) @ ext"
    and l: "\<forall>io\<in>set ext. \<exists>n t. io_event io = UserLeft n t"
    unfolding st3_def by blast
  from t have t': "trace st3 = trace st @ [Sent ws EncryptionKey]
        @ map (attempt E (UserJoined name (clock st))) (set_add ws (clients st)) @ ext"
    by (simp add: st2_def)
  have in3: "ws \<in> set (clients st3)"
    unfolding st3_def using in2 up by (rule broadcast_message_keeps(1))
  have "map_of (client_names st3) ws = map_of (client_names st2) ws"
    unfolding st3_def using in2 up by (rule broadcast_message_keeps(2))
  then have n3: "map_of (client_names st3) ws = Some name"
    by (simp add: st2_def update_conv')
  from first t' l in3 n3 show ?thesis by blast
qed

lemma joined_to_others:
  "filter (\<lambda>io. io_conn io \<noteq> ws \<and> io_event io = ev) (map (attempt E ev) cs)
     = map (attempt E ev) (filter (\<lambda>c. c \<noteq> ws) cs)"
  by (induction cs) simp_all

lemma no_joined_among_left:
  "\<forall>io\<in>set ext. \<exists>n t. io_event io = UserLeft n t \<Longrightarrow>
     filter (\<lambda>io. io_conn io \<noteq> ws \<and> io_event io = UserJoined name t') ext = []"
  by (induction ext) auto

text \<open>
  Claim C1, amended. A successful registration sends, in this order: the key to the
  registering connection, then the \<open>user_joined\<close> notice to every other registered
  connection, and last the \<open>user_list\<close> event to the registering connection, which
  lists the names registered at that moment, its own among them. The key and the list
  go to no other connection. (The order of the list and the notice is the reverse of
  the one claimed.)
\<close>

theorem registration_sequence:
  assumes obj: "dict_items data = Some d"
    and kind: "map_of d (ascii ''type'') = Some (JStr (ascii ''register''))"
    and name: "sanitize_username E (map_of d (ascii ''username'')) = Inr name"
    and up: "up E ws"
  shows "\<exists>st' mid.
           handle_client_first E st ws (Parsed data) = Continue st'
         \<and> trace st' = trace st @ [Sent ws EncryptionKey] @ mid
                          @ [Sent ws (UserList (map snd (client_names st')))]
         \<and> filter (\<lambda>io. io_conn io \<noteq> ws \<and> io_event io = UserJoined name (clock st)) mid
             = map (attempt E (UserJoined name (clock st))) (filter (\<lambda>c. c \<noteq> ws) (clients st))
         \<and> (\<forall>io\<in>set mid. io_event io \<noteq> EncryptionKey \<and> (\<forall>names. io_event io \<noteq> UserList names))
         \<and> ws \<in> set (clients st')
         \<and> name \<in> set (map snd (client_names st'))"
proof -
  let ?ev = "UserJoined name (clock st)"
  from registration_success [OF obj kind name up, of st]
  obtain st3 ext where
    first: "handle_client_first E st ws (Parsed data)
             = Continue (st3\<lparr>trace := trace st3 @ [Sent ws (UserList (map snd (client_names st3)))]\<rparr>)"
    and t: "trace st3 = trace st @ [Sent ws EncryptionKey]
                          @ map (attempt E ?ev) (set_add ws (clients st)) @ ext"
    and l: "\<forall>io\<in>set ext. \<exists>n t. io_event io = UserLeft n t"
    and in3: "ws \<in> set (clients st3)"
    and n3: "map_of (client_names st3) ws = Some name"
    by blast
  let ?st' = "st3\<lparr>trace := trace st3 @ [Sent ws (UserList (map snd (client_names st3)))]\<rparr>"
  let ?mid = "map (attempt E ?ev) (set_add ws (clients st)) @ ext"
  have a: "trace ?st' = trace st @ [Sent ws EncryptionKey] @ ?mid
                          @ [Sent ws (UserList (map snd (client_names ?st')))]"
    by (simp add: t)
  have b: "filter (\<lambda>io. io_conn io \<noteq> ws \<and> io_event io = ?ev) ?mid
             = map (attempt E ?ev) (filter (\<lambda>c. c \<noteq> ws) (clients st))"
    by (simp add: joined_to_others set_add_others no_joined_among_left [OF l])
  have c: "\<forall>io\<in>set ?mid. io_event io \<noteq> EncryptionKey \<and> (\<forall>names. io_event io \<noteq> UserList names)"
    using l by auto
  have d: "ws \<in> set (clients ?st')" using in3 by simp
  from n3 have "(ws, name) \<in> set (client_names st3)" by (rule map_of_SomeD)
  then have e: "name \<in> set (map snd (client_names ?st'))" by (auto simp: image_iff intro!: bexI)
  show ?thesis
    by (rule exI [of _ ?st'], rule exI [of _ ?mid], intro conjI, rule first, rule a, rule b,
        rule c, rule d, rule e)
qed

theorem registration_sequence_witness:
  "\<exists>st' mid.
      handle_client_first (toy_env (\<lambda>c. True)) (room \<lparr>count = 0, window_start = 0\<rparr> 5) 2
          (register_frame (JStr (ascii ''Bob''))) = Continue st'
    \<and> trace st' = [Sent 2 EncryptionKey] @ mid @ [Sent 2 (UserList (map snd (client_names st')))]
    \<and> filter (\<lambda>io. io_conn io \<noteq> 2 \<and> io_event io = UserJoined (ascii ''Bob'') 5) mid
        = [Sent 1 (UserJoined (ascii ''Bob'') 5)]
    \<and> 2 \<in> set (clients st')
    \<and> ascii ''Bob'' \<in> set (map snd (client_names st'))"
proof -
  let ?E = "toy_env (\<lambda>c. True)"
  let ?st = "room \<lparr>count = 0, window_start = 0\<rparr> 5"
  let ?d = "[(ascii ''type'', JStr (ascii ''register'')), (ascii ''username'', JStr (ascii ''Bob''))]"
  have obj: "dict_items (JObj ?d) = Some ?d" by simp
  have kind: "map_of ?d (ascii ''type'') = Some (JStr (ascii ''register''))" by simp
  have name: "sanitize_username ?E (map_of ?d (ascii ''username'')) = Inr (ascii ''Bob'')"
    by (simp add: sanitize_username_def toy_env_def strip_def allowed_def latin1_isalnum_def
        latin1_isspace_def ascii_def Let_def)
  have up: "up ?E 2" by (simp add: toy_env_def)
  have t: "trace ?st = []" and c: "clock ?st = 5" by (simp_all add: room_def)
  have others: "map (attempt ?E (UserJoined (ascii ''Bob'') 5))
                  (filter (\<lambda>c. c \<noteq> 2) (clients ?st)) = [Sent 1 (UserJoined (ascii ''Bob'') 5)]"
    by (simp add: room_def attempt_def toy_env_def)
  from registration_sequence [OF obj kind name up, of ?st]
  obtain st' mid where
    "handle_client_first ?E ?st 2 (Parsed (JObj ?d)) = Continue st'"
    "trace st' = trace ?st @ [Sent 2 EncryptionKey] @ mid
                   @ [Sent 2 (UserList (map snd (client_names st')))]"
    "filter (\<lambda>io. io_conn io \<noteq> 2 \<and> io_event io = UserJoined (ascii ''Bob'') (clock ?st)) mid
       = map (attempt ?E (UserJoined (ascii ''Bob'') (clock ?st))) (filter (\<lambda>c. c \<noteq> 2) (clients ?st))"
    "2 \<in> set (clients st')"
    "ascii ''Bob'' \<in> set (map snd (client_names st'))"
    by blast
  then have
    "handle_client_first ?E ?st 2 (register_frame (JStr (ascii ''Bob''))) = Continue st'
     \<and> trace st' = [Sent 2 EncryptionKey] @ mid @ [Sent 2 (UserList (map snd (client_names st')))]
     \<and> filter (\<lambda>io. io_conn io \<noteq> 2 \<and> io_event io = UserJoined (ascii ''Bob'') 5) mid
        = [Sent 1 (UserJoined (ascii ''Bob'') 5)]
     \<and> 2 \<in> set (clients st')
     \<and> ascii ''Bob'' \<in> set (map snd (client_names st'))"
    by (simp only: register_frame_def t c others append_Nil simp_thms)
  then show ?thesis by blast
qed

theorem registration_sequence_counterexample:
  "trace (step_state (handle_client_first (toy_env (\<lambda>c. True))
        (room \<lparr>count = 0, window_start = 0\<rparr> 5) 2 (register_frame (JStr (ascii ''Bob'')))))
     = [Sent 2 EncryptionKey,
        Sent 1 (UserJoined (ascii ''Bob'') 5),
        Sent 2 (UserJoined (ascii ''Bob'') 5),
        Sent 2 (UserList [ascii ''Ana'', ascii ''Bob''])]
   \<and> takeWhile (\<lambda>io. io \<noteq> Sent 1 (UserJoined (ascii ''Bob'') 5))
        (trace (step_state (handle_client_first (toy_env (\<lambda>c. True))
           (room \<lparr>count = 0, window_start = 0\<rparr> 5) 2 (register_frame (JStr (ascii ''Bob''))))))
     = [Sent 2 EncryptionKey]"
  by (simp add: handle_client_first_def registration_def register_frame_def
      sanitize_username_def toy_env_def strip_def allowed_def latin1_isalnum_def
      latin1_isspace_def Let_def register_client_def send_def attempt_def set_add_def room_def
      broadcast_message_def send_all_def disconnected_def targets_def finish_def ascii_def)

text \<open>
  Claim C2, amended. \<open>sanitize_username\<close> maps its own result to itself whenever
  that result has no whitespace at either end, that is, whenever \<open>strip\<close> leaves it
  unchanged (the filter and the cut to 32 can leave a space at an end, which a second
  pass strips). The name stored for a successful registration is the sanitizer applied
  to the submitted username.
\<close>

theorem sanitize_username_stored:
  assumes letters: "\<forall>ch\<in>set anonimo. isalnum E ch"
  shows "(sanitize_username E (Some (JStr s)) = Inr r \<and> strip E r = r \<longrightarrow>
            sanitize_username E (Some (JStr r)) = Inr r)
       \<and> (dict_items data = Some d
            \<and> map_of d (ascii ''type'') = Some (JStr (ascii ''register''))
            \<and> sanitize_username E (map_of d (ascii ''username'')) = Inr name
            \<and> up E ws \<longrightarrow>
            (\<exists>st'. handle_client_first E st ws (Parsed data) = Continue st'
                  \<and> map_of (client_names st') ws = Some name))"
proof (intro conjI impI)
  assume a: "sanitize_username E (Some (JStr s)) = Inr r \<and> strip E r = r"
  then have r: "sanitize_username E (Some (JStr s)) = Inr r" and trimmed: "strip E r = r"
    by simp_all
  from sanitize_username_result [OF letters r] trimmed
  show "sanitize_username E (Some (JStr r)) = Inr r"
    by (simp add: sanitize_username_str)
next
  assume a: "dict_items data = Some d
            \<and> map_of d (ascii ''type'') = Some (JStr (ascii ''register''))
            \<and> sanitize_username E (map_of d (ascii ''username'')) = Inr name
            \<and> up E ws"
  then have obj: "dict_items data = Some d"
    and kind: "map_of d (ascii ''type'') = Some (JStr (ascii ''register''))"
    and name: "sanitize_username E (map_of d (ascii ''username'')) = Inr name"
    and up: "up E ws" by simp_all
  from registration_success [OF obj kind name up, of st]
  obtain st3 where
    first: "handle_client_first E st ws (Parsed data)
             = Continue (st3\<lparr>trace := trace st3 @ [Sent ws (UserList (map snd (client_names st3)))]\<rparr>)"
    and n3: "map_of (client_names st3) ws = Some name"
    by blast
  let ?st' = "st3\<lparr>trace := trace st3 @ [Sent ws (UserList (map snd (client_names st3)))]\<rparr>"
  from n3 have "map_of (client_names ?st') ws = Some name" by simp
  with first show "\<exists>st'. handle_client_first E st ws (Parsed data) = Continue st'
                  \<and> map_of (client_names st') ws = Some name" by blast
qed

theorem sanitize_username_stored_witness:
  "sanitize_username (toy_env (\<lambda>c. True)) (Some (JStr [32, 66, 33, 111, 98, 9])) = Inr (ascii ''Bob'')
   \<and> sanitize_username (toy_env (\<lambda>c. True)) (Some (JStr (ascii ''Bob''))) = Inr (ascii ''Bob'')
   \<and> (\<exists>st'. handle_client_first (toy_env (\<lambda>c. True)) (room \<lparr>count = 0, window_start = 0\<rparr> 5) 2
               (register_frame (JStr [32, 66, 33, 111, 98, 9])) = Continue st'
            \<and> map_of (client_names st') 2 = Some (ascii ''Bob''))"
proof -
  let ?E = "toy_env (\<lambda>c. True)"
  let ?raw = "[32, 66, 33, 111, 98, 9]"
  let ?st = "room \<lparr>count = 0, window_start = 0\<rparr> 5"
  let ?d = "[(ascii ''type'', JStr (ascii ''register'')), (ascii ''username'', JStr ?raw)]"
  have letters: "\<forall>ch\<in>set anonimo. isalnum ?E ch"
    by (simp add: toy_env_def anonimo_def ascii_def latin1_isalnum_def)
  have r: "sanitize_username ?E (Some (JStr ?raw)) = Inr (ascii ''Bob'')"
    by (simp add: sanitize_username_def toy_env_def strip_def allowed_def latin1_isalnum_def
        latin1_isspace_def ascii_def Let_def)
  have trimmed: "strip ?E (ascii ''Bob'') = ascii ''Bob''"
    by (simp add: toy_env_def strip_def latin1_isspace_def ascii_def)
  have obj: "dict_items (JObj ?d) = Some ?d" by simp
  have kind: "map_of ?d (ascii ''type'') = Some (JStr (ascii ''register''))" by simp
  have name: "sanitize_username ?E (map_of ?d (ascii ''username'')) = Inr (ascii ''Bob'')"
    using r by (simp add: ascii_def)
  have up: "up ?E 2" by (simp add: toy_env_def)
  note inst = sanitize_username_stored [OF letters, of ?raw "ascii ''Bob''" "JObj ?d" ?d "ascii ''Bob''" 2 ?st]
  have p2: "sanitize_username ?E (Some (JStr (ascii ''Bob''))) = Inr (ascii ''Bob'')"
    using inst r trimmed by blast
  have p3: "\<exists>st'. handle_client_first ?E ?st 2 (register_frame (JStr ?raw)) = Continue st'
            \<and> map_of (client_names st') 2 = Some (ascii ''Bob'')"
    unfolding register_frame_def using inst obj kind name up by blast
  from r p2 p3 show ?thesis by (intro conjI)
qed

theorem sanitize_username_not_idempotent:
  "sanitize_username (toy_env (\<lambda>c. True)) (Some (JStr [33, 32, 97])) = Inr [32, 97]
   \<and> sanitize_username (toy_env (\<lambda>c. True)) (Some (JStr [32, 97])) = Inr [97]"
  by (simp add: sanitize_username_def toy_env_def strip_def allowed_def latin1_isalnum_def
      latin1_isspace_def Let_def)

subsection \<open>Payloads that are no JSON object, and a sender found dead\<close>

text \<open>
  Claim C9 at a first payload that is valid JSON but no object, here the empty array:
  \<^verbatim>\<open>data.get\<close> raises, the handler ends through its \<^verbatim>\<open>finally\<close>, and the state is
  the one before: the connection is not registered, and no error event was sent to it.
\<close>

theorem first_payload_not_object:
  "handle_client_first (toy_env (\<lambda>c. True)) (room \<lparr>count = 0, window_start = 0\<rparr> 5) 2
     (Parsed (JArr []))
   = Closed (room \<lparr>count = 0, window_start = 0\<rparr> 5)"
  by (simp add: handle_client_first_def registration_def finish_def unregister_client_def
      cleanup_Cons room_def)

text \<open>
  Claim C5 at the run \<open>stale_sender_run\<close>: the broadcast of Ana's first message
  finds her connection dead and unregisters it while her handler is still in its
  loop; her next message makes \<open>rate_limit_ok\<close> create a bucket for her
  connection again; the \<^verbatim>\<open>finally\<close> of her handler then finds her not in the client
  set and removes nothing. Her connection is gone and in neither the client set nor the
  names, yet it keeps a rate bucket.
\<close>

theorem stale_sender_keeps_bucket:
  "clients (srv (run initial stale_sender_run)) = [2]
   \<and> client_names (srv (run initial stale_sender_run)) = [(2, ascii ''Bob'')]
   \<and> pc (run initial stale_sender_run) 1 = Gone
   \<and> rate_bucket (srv (run initial stale_sender_run)) 1 = Some \<lparr>count = 1, window_start = 3\<rparr>"
  by (simp add: stale_sender_run_def initial_def system_step_def after_def
      handle_client_first_def handle_client_message_def handle_client_closed_def
      registration_def message_round_def register_client_def finish_def send_def attempt_def
      set_add_def sanitize_username_def strip_def allowed_def latin1_isalnum_def
      latin1_isspace_def rate_limit_ok_def RATE_WINDOW_def RATE_MAX_MSGS_def
      MAX_ENCRYPTED_LEN_def MAX_PLAINTEXT_LEN_def broadcast_message_def unregister_client_def
      cleanup_Cons send_all_def disconnected_def targets_def forget_def left_name_def
      sender_name_def toy_env_def toy_encrypt_def register_frame_def chat_frame_def ascii_def
      Let_def)

subsection \<open>The registry over a whole run\<close>

lemma registry_ok_forget: "registry_ok st \<Longrightarrow> registry_ok (forget st w)"
  by (auto simp: registry_ok_def delete_keys distinct_removeAll)

lemma registry_ok_send_all: "registry_ok (send_all E st ev x e) = registry_ok st"
  by (simp add: registry_ok_def)

lemma registry_ok_cleanup: "registry_ok st \<Longrightarrow> registry_ok (cleanup E ds st)"
proof (induction E ds st rule: cleanup_cases)
  case (Nil E st)
  then show ?case by simp
next
  case (Skip E w p st)
  then show ?case by (simp add: cleanup_Cons)
next
  case (Last E w p st)
  then show ?case by (simp add: cleanup_Cons registry_ok_forget)
next
  case (More E w p st)
  then show ?case by (simp add: cleanup_Cons registry_ok_forget registry_ok_send_all)
qed

lemma registry_ok_unregister: "registry_ok st \<Longrightarrow> registry_ok (unregister_client E st ws)"
  by (simp add: unregister_client_def registry_ok_cleanup)

lemma registry_ok_broadcast:
  "registry_ok st \<Longrightarrow> registry_ok (broadcast_message E st ev x e)"
  by (simp add: broadcast_message_def registry_ok_cleanup registry_ok_send_all)

lemma registry_ok_trace [simp]: "registry_ok (st\<lparr>trace := t\<rparr>) = registry_ok st"
  by (simp add: registry_ok_def)

lemma registry_ok_clock [simp]: "registry_ok (st\<lparr>clock := t\<rparr>) = registry_ok st"
  by (simp add: registry_ok_def)

lemma rate_limit_ok_dom:
  "rate_limit_ok st ws = (ok, st1) \<Longrightarrow> dom (rate_bucket st) \<subseteq> dom (rate_bucket st1)"
  by (auto simp: rate_limit_ok_def Let_def split: option.splits if_splits)

lemma registry_ok_rate:
  assumes "rate_limit_ok st ws = (ok, st1)" "registry_ok st"
  shows "registry_ok st1"
proof -
  note frame = rate_limit_ok_frame [OF assms(1)]
  from assms(2) have a: "set (clients st) = set (map fst (client_names st))"
    and b: "distinct (clients st)" and c: "set (clients st) \<subseteq> dom (rate_bucket st)"
    unfolding registry_ok_def by blast+
  from c rate_limit_ok_dom [OF assms(1)] have "set (clients st) \<subseteq> dom (rate_bucket st1)"
    by (rule order_trans)
  with a b show ?thesis unfolding registry_ok_def frame by blast
qed

lemma unregister_client_removes: "ws \<notin> set (clients (unregister_client E st ws))"
  by (simp add: unregister_client_def cleanup_removes)

lemma unregister_client_subset:
  "set (clients (unregister_client E st ws)) \<subseteq> set (clients st)"
  by (simp add: unregister_client_def cleanup_clients_subset)

lemma broadcast_message_subset:
  "set (clients (broadcast_message E st ev x e)) \<subseteq> set (clients st)"
  using cleanup_clients_subset [of E "disconnected E st x e" "send_all E st ev x e"]
  by (simp add: broadcast_message_def)

lemma send_state [simp]:
  "flow_state (send E st ws ev) = st\<lparr>trace := trace st @ [attempt E ev ws]\<rparr>"
  by (simp add: send_def Let_def)

lemma send_cases:
  "send E st ws ev = Next (flow_state (send E st ws ev))
   \<or> send E st ws ev = Raised ConnectionClosed (flow_state (send E st ws ev))"
  by (simp add: send_def Let_def)

lemma registry_ok_enrol:
  assumes "registry_ok st"
  shows "registry_ok (st\<lparr>clients := set_add ws (clients st),
                         client_names := AList.update ws name (client_names st),
                         rate_bucket := (rate_bucket st)(ws \<mapsto> b)\<rparr>)"
  using assms by (auto simp: registry_ok_def set_add_def update_keys)

lemma register_client_ok:
  assumes "registry_ok st"
  shows "registry_ok (flow_state (register_client E st ws name))"
    and "set (clients (flow_state (register_client E st ws name))) \<subseteq> insert ws (set (clients st))"
proof -
  let ?st1 = "st\<lparr>clients := set_add ws (clients st),
                  client_names := AList.update ws name (client_names st),
                  rate_bucket := (rate_bucket st)(ws \<mapsto> \<lparr>count = 0, window_start = clock st\<rparr>)\<rparr>"
  let ?st2 = "?st1\<lparr>trace := trace ?st1 @ [attempt E EncryptionKey ws]\<rparr>"
  have ok2: "registry_ok ?st2" using registry_ok_enrol [OF assms] by simp
  have sub2: "set (clients ?st2) \<subseteq> insert ws (set (clients st))" by (auto simp: set_add_def)
  show "registry_ok (flow_state (register_client E st ws name))"
  proof (cases "up E ws")
    case True
    then show ?thesis
      using registry_ok_broadcast [OF ok2] by (simp add: register_client_def send_def Let_def)
  next
    case False
    then show ?thesis using ok2 by (simp add: register_client_def send_def Let_def)
  qed
  show "set (clients (flow_state (register_client E st ws name))) \<subseteq> insert ws (set (clients st))"
  proof (cases "up E ws")
    case True
    then show ?thesis
      using broadcast_message_subset [of E ?st2 "UserJoined name (clock st)" None False] sub2
      by (auto simp: register_client_def send_def Let_def)
  next
    case False
    then show ?thesis using sub2 by (simp add: register_client_def send_def Let_def)
  qed
qed

lemma register_client_result:
  assumes "registry_ok st" "register_client E st ws name = f"
  shows "registry_ok (flow_state f)"
    and "set (clients (flow_state f)) \<subseteq> insert ws (set (clients st))"
  using register_client_ok [OF assms(1), of E ws name] assms(2) by simp_all

lemma registration_ok:
  assumes "registry_ok st"
  shows "registry_ok (flow_state (registration E st ws payload))"
    and "set (clients (flow_state (registration E st ws payload))) \<subseteq> insert ws (set (clients st))"
proof -
  note rc = register_client_result [OF assms]
  show "registry_ok (flow_state (registration E st ws payload))"
    using assms
    by (auto simp: registration_def send_def Let_def dest: rc(1)
        split: frame.splits option.splits sum.splits flow.splits)
  show "set (clients (flow_state (registration E st ws payload))) \<subseteq> insert ws (set (clients st))"
    by (auto simp: registration_def send_def Let_def dest!: rc(2)
        split: frame.splits option.splits sum.splits flow.splits)
qed

lemma message_round_ok:
  assumes "registry_ok st"
  shows "registry_ok (flow_state (message_round E iv st ws payload))"
    and "set (clients (flow_state (message_round E iv st ws payload))) \<subseteq> set (clients st)"
proof -
  obtain ok st1 where r: "rate_limit_ok st ws = (ok, st1)" by (cases "rate_limit_ok st ws")
  note frame = rate_limit_ok_frame [OF r]
  have ok1: "registry_ok st1" using r assms by (rule registry_ok_rate)
  show "registry_ok (flow_state (message_round E iv st ws payload))"
    using ok1 registry_ok_broadcast [OF ok1]
    by (auto simp: message_round_def r split: frame.splits option.splits)
  show "set (clients (flow_state (message_round E iv st ws payload))) \<subseteq> set (clients st)"
    using broadcast_message_subset [of E st1]
    by (auto simp: message_round_def r frame split: frame.splits option.splits)
qed

lemma finish_ok:
  assumes "registry_ok (flow_state f)" "set (clients (flow_state f)) \<subseteq> A"
  shows "registry_ok (step_state (finish E ws f))"
    and "set (clients (step_state (finish E ws f))) \<subseteq> A"
    and "finish E ws f = Closed st' \<Longrightarrow> ws \<notin> set (clients st')"
proof -
  show "registry_ok (step_state (finish E ws f))"
    using assms(1) by (cases f) (simp_all add: finish_def registry_ok_unregister)
  show "set (clients (step_state (finish E ws f))) \<subseteq> A"
    using assms(2) unregister_client_subset [of E "flow_state f" ws]
    by (cases f) (auto simp: finish_def)
  show "finish E ws f = Closed st' \<Longrightarrow> ws \<notin> set (clients st')"
    using unregister_client_removes [of ws E "flow_state f"]
    by (cases f) (auto simp: finish_def)
qed

lemma after_ok:
  assumes "registry_ok (step_state r)"
    and "set (clients (step_state r)) \<subseteq> insert ws A"
    and "\<And>st'. r = Closed st' \<Longrightarrow> ws \<notin> set (clients st')"
    and "\<forall>c\<in>A. pc sys c = InLoop"
  shows "registry_ok (srv (after sys ws r))"
    and "\<forall>c\<in>set (clients (srv (after sys ws r))). pc (after sys ws r) c = InLoop"
proof -
  show "registry_ok (srv (after sys ws r))"
    using assms(1) by (cases r) (simp_all add: after_def)
  show "\<forall>c\<in>set (clients (srv (after sys ws r))). pc (after sys ws r) c = InLoop"
  proof (cases r)
    case (Continue st')
    with assms(2,4) show ?thesis by (auto simp: after_def)
  next
    case (Closed st')
    with assms(2,4) assms(3) [OF Closed] show ?thesis by (auto simp: after_def)
  qed
qed

lemma finished_ok:
  assumes "registry_ok (flow_state f)"
    and "set (clients (flow_state f)) \<subseteq> insert ws A"
    and "\<forall>c\<in>A. pc sys c = InLoop"
  shows "registry_ok (srv (after sys ws (finish E ws f)))
       \<and> (\<forall>c\<in>set (clients (srv (after sys ws (finish E ws f)))).
             pc (after sys ws (finish E ws f)) c = InLoop)"
proof -
  have a: "registry_ok (step_state (finish E ws f))"
    using assms(1,2) by (rule finish_ok(1))
  have b: "set (clients (step_state (finish E ws f))) \<subseteq> insert ws A"
    using assms(1,2) by (rule finish_ok(2))
  have c: "\<And>st'. finish E ws f = Closed st' \<Longrightarrow> ws \<notin> set (clients st')"
    using assms(1,2) by (rule finish_ok(3))
  from after_ok [OF a b c assms(3)] show ?thesis by blast
qed

lemma system_step_ok:
  assumes ok: "registry_ok (srv sys)"
    and loop: "\<forall>c\<in>set (clients (srv sys)). pc sys c = InLoop"
  shows "registry_ok (srv (system_step E sys occ))
       \<and> (\<forall>c\<in>set (clients (srv (system_step E sys occ))). pc (system_step E sys occ) c = InLoop)"
proof -
  let ?ws = "who occ"
  let ?st = "(srv sys)\<lparr>clock := at_time occ\<rparr>"
  have ok': "registry_ok ?st" using ok by simp
  have loop': "\<forall>c\<in>set (clients ?st). pc sys c = InLoop" using loop by simp
  have first: "registry_ok (srv (after sys ?ws (handle_client_first E ?st ?ws payload)))
       \<and> (\<forall>c\<in>set (clients (srv (after sys ?ws (handle_client_first E ?st ?ws payload)))).
             pc (after sys ?ws (handle_client_first E ?st ?ws payload)) c = InLoop)" for payload
    unfolding handle_client_first_def
    using registration_ok(1) [OF ok'] registration_ok(2) [OF ok'] loop'
    by (rule finished_ok)
  have sub: "set (clients (flow_state (message_round E iv ?st ?ws payload)))
               \<subseteq> insert ?ws (set (clients ?st))" for iv payload
    using message_round_ok(2) [OF ok', of E iv ?ws payload] by blast
  have later: "registry_ok (srv (after sys ?ws (handle_client_message E iv ?st ?ws payload)))
       \<and> (\<forall>c\<in>set (clients (srv (after sys ?ws (handle_client_message E iv ?st ?ws payload)))).
             pc (after sys ?ws (handle_client_message E iv ?st ?ws payload)) c = InLoop)"
    for iv payload
    unfolding handle_client_message_def
    using message_round_ok(1) [OF ok'] sub loop'
    by (rule finished_ok)
  have closed: "registry_ok (srv (after sys ?ws (handle_client_closed E ?st ?ws)))
       \<and> (\<forall>c\<in>set (clients (srv (after sys ?ws (handle_client_closed E ?st ?ws)))).
             pc (after sys ?ws (handle_client_closed E ?st ?ws)) c = InLoop)"
  proof -
    have a: "registry_ok (step_state (handle_client_closed E ?st ?ws))"
      by (simp add: handle_client_closed_def registry_ok_unregister [OF ok'])
    have b: "set (clients (step_state (handle_client_closed E ?st ?ws)))
               \<subseteq> insert ?ws (set (clients ?st))"
      using unregister_client_subset [of E ?st ?ws] by (auto simp: handle_client_closed_def)
    have c: "handle_client_closed E ?st ?ws = Closed st' \<Longrightarrow> ?ws \<notin> set (clients st')" for st'
      using unregister_client_removes [of ?ws E ?st] by (auto simp: handle_client_closed_def)
    from after_ok [OF a b c loop'] show ?thesis by blast
  qed
  show ?thesis
  proof (cases "pc sys ?ws")
    case Gone
    with ok loop show ?thesis by (simp add: system_step_def Let_def)
  next
    case Connected
    then show ?thesis
      using first closed by (cases "what occ") (simp_all add: system_step_def Let_def)
  next
    case InLoop
    then show ?thesis
      using later closed by (cases "what occ") (simp_all add: system_step_def Let_def)
  qed
qed

lemma run_ok:
  "registry_ok (srv sys) \<Longrightarrow> \<forall>c\<in>set (clients (srv sys)). pc sys c = InLoop \<Longrightarrow>
     registry_ok (srv (run sys occs))
     \<and> (\<forall>c\<in>set (clients (srv (run sys occs))). pc (run sys occs) c = InLoop)"
proof (induction occs arbitrary: sys)
  case Nil
  then show ?case by simp
next
  case (Cons eo occs)
  obtain E occ where eo: "eo = (E, occ)" by (cases eo)
  from system_step_ok [OF Cons.prems, of E occ] Cons.IH [of "system_step E sys occ"]
  show ?case by (simp add: eo)
qed

text \<open>
  After every run from the empty server the three tables agree (\<open>registry_ok\<close>), and
  every connection of the client set belongs to a handler that has registered and is
  in its message loop: none is kept for a handler that has ended or not yet
  registered.
\<close>

theorem registry_consistent:
  "registry_ok (srv (run initial occs))
   \<and> (\<forall>c\<in>set (clients (srv (run initial occs))). pc (run initial occs) c = InLoop)"
proof -
  have "registry_ok (srv initial)" by (simp add: initial_def registry_ok_def)
  moreover have "\<forall>c\<in>set (clients (srv initial)). pc initial c = InLoop"
    by (simp add: initial_def)
  ultimately show ?thesis by (rule run_ok)
qed

theorem registry_consistent_witness:
  "clients (srv (run initial
      [(toy_env (\<lambda>c. True),
        \<lparr>at_time = 0, nonce = 0, who = 1, what = Recv (register_frame (JStr (ascii ''Ana'')))\<rparr>)]))
     = [1]
   \<and> pc (run initial
      [(toy_env (\<lambda>c. True),
        \<lparr>at_time = 0, nonce = 0, who = 1, what = Recv (register_frame (JStr (ascii ''Ana'')))\<rparr>)]) 1
     = InLoop"
proof -
  let ?occs = "[(toy_env (\<lambda>c. True),
        \<lparr>at_time = 0, nonce = 0, who = 1, what = Recv (register_frame (JStr (ascii ''Ana'')))\<rparr>)]"
  have c: "clients (srv (run initial ?occs)) = [1]"
    by (simp add: initial_def system_step_def after_def handle_client_first_def
        registration_def register_client_def finish_def send_def attempt_def set_add_def
        sanitize_username_def strip_def allowed_def latin1_isalnum_def latin1_isspace_def
        broadcast_message_def send_all_def disconnected_def targets_def toy_env_def
        register_frame_def ascii_def Let_def)
  from registry_consistent [of ?occs]
  have "\<forall>c\<in>set (clients (srv (run initial ?occs))). pc (run initial ?occs) c = InLoop"
    by blast
  then have "pc (run initial ?occs) 1 = InLoop" unfolding c by simp
  with c show ?thesis by (intro conjI)
qed

text \<open>A second call of \<open>unregister_client\<close> on the same connection changes nothing.\<close>

theorem unregister_client_idempotent:
  "unregister_client E (unregister_client E st ws) ws = unregister_client E st ws"
  by (simp add: unregister_client_eq [of E "unregister_client E st ws"] unregister_client_removes)

text \<open>
  The first payloads the handler answers: on malformed JSON and on an object whose
  type is not \<open>register\<close> a new connection gets one error event and its handler
  ends, with every table as before.
\<close>

theorem first_payload_rejected:
  assumes new: "ws \<notin> set (clients st)"
  shows "handle_client_first E st ws Malformed
           = Closed (st\<lparr>trace := trace st @ [attempt E (Error RegistrationJsonInvalid) ws]\<rparr>)
       \<and> (dict_items data = Some d
            \<and> map_of d (ascii ''type'') \<noteq> Some (JStr (ascii ''register'')) \<longrightarrow>
          handle_client_first E st ws (Parsed data)
            = Closed (st\<lparr>trace := trace st @ [attempt E (Error MustRegisterFirst) ws]\<rparr>))"
proof -
  have quiet: "unregister_client E (st\<lparr>trace := t\<rparr>) ws = st\<lparr>trace := t\<rparr>" for t
    using new by (simp add: unregister_client_eq)
  show ?thesis
    by (simp add: handle_client_first_def registration_def send_def finish_def quiet Let_def)
qed

theorem first_payload_rejected_witness:
  "handle_client_first (toy_env (\<lambda>c. True)) (room \<lparr>count = 0, window_start = 0\<rparr> 5) 2 Malformed
     = Closed ((room \<lparr>count = 0, window_start = 0\<rparr> 5)
                 \<lparr>trace := [Sent 2 (Error RegistrationJsonInvalid)]\<rparr>)
   \<and> handle_client_first (toy_env (\<lambda>c. True)) (room \<lparr>count = 0, window_start = 0\<rparr> 5) 2
        (chat_frame (JStr [1]))
     = Closed ((room \<lparr>count = 0, window_start = 0\<rparr> 5)
                 \<lparr>trace := [Sent 2 (Error MustRegisterFirst)]\<rparr>)"
proof -
  let ?E = "toy_env (\<lambda>c. True)"
  let ?st = "room \<lparr>count = 0, window_start = 0\<rparr> 5"
  let ?d = "[(ascii ''type'', JStr (ascii ''chat_message'')), (ascii ''content'', JStr [1])]"
  have new: "2 \<notin> set (clients ?st)" by (simp add: room_def)
  have obj: "dict_items (JObj ?d) = Some ?d" by simp
  have kind: "map_of ?d (ascii ''type'') \<noteq> Some (JStr (ascii ''register''))"
    by (simp add: ascii_def)
  have sent: "attempt ?E ev 2 = Sent 2 ev" for ev by (simp add: attempt_def toy_env_def)
  have t: "trace ?st = []" by (simp add: room_def)
  from first_payload_rejected [OF new, of ?E "JObj ?d" ?d] obj kind
  show ?thesis by (simp add: sent t chat_frame_def)
qed

subsection \<open>The broadcast loop and a client set that changes under it\<close>

lemma broadcast_loop_undisturbed:
  "length (clients st) = n \<Longrightarrow> set cs \<subseteq> set (clients st) \<Longrightarrow>
     broadcast_loop E (\<lambda>c s. s) message exclude echo n cs collected st
       = Completed (foldl (unregister_client E)
           (st\<lparr>trace := trace st @ map (attempt E message)
                   (filter (\<lambda>client. \<not> (\<not> echo \<and> Some client = exclude)) cs)\<rparr>)
           (collected @ filter (\<lambda>client. \<not> up E client)
                   (filter (\<lambda>client. \<not> (\<not> echo \<and> Some client = exclude)) cs)))"
proof (induction cs arbitrary: collected st)
  case Nil
  then show ?case by simp
next
  case (Cons c cs)
  let ?st = "st\<lparr>trace := trace st @ [attempt E message c]\<rparr>"
  have n: "length (clients ?st) = n" using Cons.prems(1) by simp
  have sub: "set cs \<subseteq> set (clients ?st)" using Cons.prems(2) by simp
  have sub': "set cs \<subseteq> set (clients st)" using Cons.prems(2) by simp
  have c: "c \<in> set (clients st)" using Cons.prems(2) by simp
  show ?case
  proof (cases "\<not> echo \<and> Some c = exclude")
    case True
    with Cons.IH [OF Cons.prems(1) sub', of collected] Cons.prems(1) c show ?thesis by simp
  next
    case False
    show ?thesis
    proof (cases "up E c")
      case True
      with False Cons.IH [OF n sub, of collected] Cons.prems(1) c show ?thesis by auto
    next
      case down: False
      with False Cons.IH [OF n sub, of "collected @ [c]"] Cons.prems(1) c show ?thesis by auto
    qed
  qed
qed

lemma broadcast_message_live_undisturbed:
  "broadcast_message_live E (\<lambda>c s. s) st message exclude echo
     = Completed (broadcast_message E st message exclude echo)"
  by (simp add: broadcast_message_live_def broadcast_loop_undisturbed broadcast_message_eq
      send_all_def disconnected_def targets_def)

lemma unregister_client_live_undisturbed:
  "unregister_client_live E (\<lambda>c s. s) st ws = Completed (unregister_client E st ws)"
  by (simp add: unregister_client_live_def broadcast_message_live_undisturbed unregister_client_eq)

text \<open>
  Claim C8 at a broadcast during which the client set changes. Ana's transport has
  closed. Bob's chat message is broadcast to Ana, Bob and Eva; the send to Ana fails
  and is caught, but while it was awaited Ana's own handler ended and unregistered
  her, so the set is smaller when the loop asks for its next element: RuntimeError
  leaves the loop. The message was attempted on the dead connection only; Bob and Eva,
  both registered and reachable, never get it.
\<close>

theorem fan_out_cut_short:
  "broadcast_message_live (toy_env (\<lambda>c. c \<noteq> 1)) (own_handler_ends (toy_env (\<lambda>c. c \<noteq> 1)) 1)
       lobby (ChatMessage (ascii ''Bob'') (toy_encrypt 7 (ascii ''hola'')) 9) (Some 2) True
     = SetChanged ((forget lobby 1)
         \<lparr>trace := [Failed 1 (ChatMessage (ascii ''Bob'') (toy_encrypt 7 (ascii ''hola'')) 9),
                    Sent 2 (UserLeft (ascii ''Ana'') 9),
                    Sent 3 (UserLeft (ascii ''Ana'') 9)]\<rparr>)
   \<and> up (toy_env (\<lambda>c. c \<noteq> 1)) 3
   \<and> 3 \<in> set (clients lobby)
   \<and> Sent 3 (ChatMessage (ascii ''Bob'') (toy_encrypt 7 (ascii ''hola'')) 9)
       \<notin> set (trace (fan_out_state
             (broadcast_message_live (toy_env (\<lambda>c. c \<noteq> 1))
                (own_handler_ends (toy_env (\<lambda>c. c \<noteq> 1)) 1)
                lobby (ChatMessage (ascii ''Bob'') (toy_encrypt 7 (ascii ''hola'')) 9)
                (Some 2) True)))"
  by (simp add: broadcast_message_live_def own_handler_ends_def lobby_def toy_env_def
      attempt_def unregister_client_def cleanup_Cons forget_def left_name_def send_all_def
      disconnected_def targets_def)

text \<open>
  Claim C10 at a disconnect during whose leave notice the client set changes. Eva
  disconnects from the room of Ana, Bob and Eva; she is removed, and her leave notice
  is sent to Ana. While that send is awaited a fourth connection registers, so the set
  is larger when the loop asks for its next element: RuntimeError leaves the loop, and
  Bob, registered and reachable, never gets Eva's leave notice.
\<close>

theorem leave_notice_cut_short:
  "unregister_client_live (toy_env (\<lambda>c. True))
       (newcomer_registers (toy_env (\<lambda>c. True)) 1 4 (ascii ''Dan'')) lobby 3
     = SetChanged
         \<lparr>clients = [1, 2, 4],
          client_names = [(1, ascii ''Ana''), (2, ascii ''Bob''), (4, ascii ''Dan'')],
          rate_bucket = (rate_bucket lobby)(3 := None, 4 \<mapsto> \<lparr>count = 0, window_start = 9\<rparr>),
          trace = [Sent 1 (UserLeft (ascii ''Eva'') 9),
                   Sent 4 EncryptionKey,
                   Sent 1 (UserJoined (ascii ''Dan'') 9),
                   Sent 2 (UserJoined (ascii ''Dan'') 9),
                   Sent 4 (UserJoined (ascii ''Dan'') 9)],
          clock = 9\<rparr>
   \<and> up (toy_env (\<lambda>c. True)) 2
   \<and> 2 \<in> set (clients (forget lobby 3))
   \<and> Sent 2 (UserLeft (ascii ''Eva'') 9)
       \<notin> set (trace (fan_out_state
             (unregister_client_live (toy_env (\<lambda>c. True))
                (newcomer_registers (toy_env (\<lambda>c. True)) 1 4 (ascii ''Dan'')) lobby 3)))"
  by (simp add: unregister_client_live_def broadcast_message_live_def newcomer_registers_def
      register_client_def send_def set_add_def broadcast_message_def lobby_def toy_env_def
      attempt_def forget_def left_name_def send_all_def disconnected_def targets_def Let_def)

subsection \<open>Names stored and names sent\<close>

lemma allowed_tables: "isalnum E' = isalnum E \<Longrightarrow> allowed E' ch = allowed E ch"
  unfolding allowed_def by (erule ssubst) (rule refl)

lemma good_name_tables:
  assumes "isalnum E' = isalnum E"
  shows "good_name E' name = good_name E name"
proof -
  have "allowed E' = allowed E" by (rule ext) (rule allowed_tables [OF assms])
  then show ?thesis unfolding good_name_def by (rule ssubst) (rule refl)
qed

lemma names_ok_trace_snoc:
  "names_ok E st \<Longrightarrow> event_ok E ev \<Longrightarrow> names_ok E (st\<lparr>trace := trace st @ [attempt E' ev c]\<rparr>)"
  unfolding names_ok_def by simp

lemma names_ok_clock [simp]: "names_ok E (st\<lparr>clock := t\<rparr>) = names_ok E st"
  unfolding names_ok_def by simp

lemma delete_values: "set (map snd (AList.delete w al)) \<subseteq> set (map snd al)"
  by (induction al) auto

lemma names_ok_forget:
  assumes "names_ok E st"
  shows "names_ok E (forget st w)"
proof -
  from assms have a: "\<forall>n\<in>set (map snd (client_names st)). good_name E n"
    and b: "list_all (\<lambda>io. event_ok E (io_event io)) (trace st)"
    unfolding names_ok_def list_all_iff by blast+
  from a delete_values [of w "client_names st"]
  have "\<forall>n\<in>set (map snd (AList.delete w (client_names st))). good_name E n" by blast
  with b show ?thesis unfolding names_ok_def list_all_iff by simp
qed

lemma names_ok_send_all:
  assumes "names_ok E st" "event_ok E ev"
  shows "names_ok E (send_all E' st ev x e)"
proof -
  from assms(1) have a: "list_all (good_name E) (map snd (client_names st))"
    and b: "\<forall>io\<in>set (trace st). event_ok E (io_event io)"
    unfolding names_ok_def list_all_iff by blast+
  have "\<forall>io\<in>set (map (attempt E' ev) (targets st x e)). event_ok E (io_event io)"
    using assms(2) by auto
  with b have "\<forall>io\<in>set (trace (send_all E' st ev x e)). event_ok E (io_event io)" by auto
  with a show ?thesis unfolding names_ok_def list_all_iff by simp
qed

lemma stored_name:
  assumes "registry_ok st" "w \<in> set (clients st)"
  shows "\<exists>name. map_of (client_names st) w = Some name \<and> name \<in> set (map snd (client_names st))"
proof -
  from assms have "w \<in> fst ` set (client_names st)" by (simp add: registry_ok_def)
  then have "map_of (client_names st) w \<noteq> None" by (simp add: map_of_eq_None_iff)
  then obtain name where n: "map_of (client_names st) w = Some name" by blast
  then have "(w, name) \<in> set (client_names st)" by (rule map_of_SomeD)
  then have "name \<in> set (map snd (client_names st))" by (auto simp: image_iff intro!: bexI)
  with n show ?thesis by blast
qed

lemma left_name_good:
  assumes "registry_ok st" "names_ok E st" "w \<in> set (clients st)"
  shows "event_ok E (UserLeft (left_name st w) t)"
proof -
  from stored_name [OF assms(1,3)] obtain name where
    "map_of (client_names st) w = Some name" "name \<in> set (map snd (client_names st))" by blast
  with assms(2) show ?thesis by (auto simp: left_name_def event_ok_def names_ok_def list_all_iff)
qed

lemma names_ok_cleanup:
  "registry_ok st \<Longrightarrow> names_ok E st \<Longrightarrow> names_ok E (cleanup E' ds st)"
proof (induction E' ds st rule: cleanup_cases)
  case (Nil E' st)
  then show ?case by simp
next
  case (Skip E' w p st)
  then show ?case by (simp add: cleanup_Cons)
next
  case (Last E' w p st)
  then show ?case by (simp add: cleanup_Cons registry_ok_forget names_ok_forget)
next
  case (More E' w p st)
  have ev: "event_ok E (UserLeft (left_name st w) (clock st))"
    using More.prems More.hyps(1) by (intro left_name_good)
  have "registry_ok (send_all E' (forget st w) (UserLeft (left_name st w) (clock st)) None True)"
    using More.prems(1) by (simp add: registry_ok_send_all registry_ok_forget)
  moreover have "names_ok E (send_all E' (forget st w) (UserLeft (left_name st w) (clock st)) None True)"
    using More.prems(2) ev by (intro names_ok_send_all names_ok_forget)
  ultimately show ?case using More.hyps More.IH by (simp add: cleanup_Cons)
qed

lemma names_ok_unregister:
  "registry_ok st \<Longrightarrow> names_ok E st \<Longrightarrow> names_ok E (unregister_client E' st ws)"
  by (simp add: unregister_client_def names_ok_cleanup)

lemma names_ok_broadcast:
  "registry_ok st \<Longrightarrow> names_ok E st \<Longrightarrow> event_ok E ev \<Longrightarrow>
     names_ok E (broadcast_message E' st ev x e)"
  by (simp add: broadcast_message_def names_ok_cleanup names_ok_send_all registry_ok_send_all)

lemma anonimo_good: "\<forall>ch\<in>set anonimo. isalnum E ch \<Longrightarrow> good_name E anonimo"
  unfolding good_name_def list_all_iff by (simp add: anonimo_facts(2) allowed_def)

lemma sanitize_username_good:
  assumes letters: "\<forall>ch\<in>set anonimo. isalnum E ch"
    and r: "sanitize_username E v = Inr name"
  shows "good_name E name"
proof (cases "\<exists>s. v = Some (JStr s)")
  case True
  then obtain s where v: "v = Some (JStr s)" by blast
  from r have r': "sanitize_username E (Some (JStr s)) = Inr name" by (simp add: v)
  from sanitize_username_result [OF letters r']
  have "length name \<le> 32" and f: "filter (allowed E) name = name" by blast+
  from f have "\<forall>ch\<in>set name. allowed E ch" by (simp add: filter_id_conv)
  with \<open>length name \<le> 32\<close> show ?thesis unfolding good_name_def list_all_iff by blast
next
  case False
  with r have "name = anonimo"
    by (auto simp: sanitize_username_def split: option.splits if_splits json.splits)
  with letters show ?thesis by (simp add: anonimo_good)
qed

lemma update_values: "set (map snd (AList.update k v al)) \<subseteq> insert v (set (map snd al))"
  by (induction al) auto

lemma names_ok_enrol:
  assumes "names_ok E st" "good_name E name"
  shows "names_ok E (st\<lparr>clients := cs,
                         client_names := AList.update ws name (client_names st),
                         rate_bucket := rb\<rparr>)"
proof -
  from assms(1) have a: "\<forall>n\<in>set (map snd (client_names st)). good_name E n"
    and b: "list_all (\<lambda>io. event_ok E (io_event io)) (trace st)"
    unfolding names_ok_def list_all_iff by blast+
  from a assms(2) update_values [of ws name "client_names st"]
  have "\<forall>n\<in>set (map snd (AList.update ws name (client_names st))). good_name E n" by blast
  with b show ?thesis unfolding names_ok_def list_all_iff by simp
qed

lemma key_ok: "event_ok E EncryptionKey" and error_ok: "event_ok E (Error e)"
  unfolding event_ok_def by simp_all

lemma joined_ok: "good_name E name \<Longrightarrow> event_ok E (UserJoined name t)"
  unfolding event_ok_def by simp

lemma list_ok: "names_ok E st \<Longrightarrow> event_ok E (UserList (map snd (client_names st)))"
  unfolding event_ok_def names_ok_def by simp

lemma chat_ok:
  assumes "names_ok E st"
  shows "event_ok E (ChatMessage (sender_name st ws) content t)"
proof (cases "map_of (client_names st) ws")
  case None
  then show ?thesis unfolding event_ok_def sender_name_def by simp
next
  case (Some name)
  then have "(ws, name) \<in> set (client_names st)" by (rule map_of_SomeD)
  then have "name \<in> set (map snd (client_names st))" by (auto simp: image_iff intro!: bexI)
  with assms have "good_name E name" unfolding names_ok_def list_all_iff by blast
  with Some show ?thesis unfolding event_ok_def sender_name_def by simp
qed

lemma names_ok_register_client:
  assumes ok: "registry_ok st" and names: "names_ok E st" and good: "good_name E name"
  shows "names_ok E (flow_state (register_client E' st ws name))"
proof -
  let ?st1 = "st\<lparr>clients := set_add ws (clients st),
                  client_names := AList.update ws name (client_names st),
                  rate_bucket := (rate_bucket st)(ws \<mapsto> \<lparr>count = 0, window_start = clock st\<rparr>)\<rparr>"
  let ?st2 = "?st1\<lparr>trace := trace ?st1 @ [attempt E' EncryptionKey ws]\<rparr>"
  have n1: "names_ok E ?st1" using names good by (rule names_ok_enrol)
  have n2: "names_ok E ?st2" using n1 key_ok by (rule names_ok_trace_snoc)
  have ok2: "registry_ok ?st2" using registry_ok_enrol [OF ok] by simp
  show ?thesis
  proof (cases "up E' ws")
    case True
    then show ?thesis
      using names_ok_broadcast [OF ok2 n2 joined_ok [OF good]]
      by (simp add: register_client_def send_def Let_def)
  next
    case False
    then show ?thesis using n2 by (simp add: register_client_def send_def Let_def)
  qed
qed

lemma sanitize_username_good_tables:
  assumes letters: "\<forall>ch\<in>set anonimo. isalnum E ch"
    and tables: "isalnum E' = isalnum E"
    and r: "sanitize_username E' v = Inr name"
  shows "good_name E name"
proof -
  from letters tables have "\<forall>ch\<in>set anonimo. isalnum E' ch" by simp
  then have "good_name E' name" using r by (rule sanitize_username_good)
  then show ?thesis by (simp only: good_name_tables [OF tables])
qed

lemma names_ok_send:
  "names_ok E st \<Longrightarrow> event_ok E ev \<Longrightarrow> names_ok E (flow_state (send E' st ws ev))"
  by (simp add: names_ok_trace_snoc)

lemma names_ok_registration:
  assumes ok: "registry_ok st" and names: "names_ok E st"
    and letters: "\<forall>ch\<in>set anonimo. isalnum E ch"
    and tables: "isalnum E' = isalnum E"
  shows "names_ok E (flow_state (registration E' st ws payload))"
proof (cases payload)
  case Malformed
  have "flow_state (registration E' st ws Malformed)
          = flow_state (send E' st ws (Error RegistrationJsonInvalid))"
    by (simp add: registration_def send_def Let_def)
  with names_ok_send [OF names error_ok] Malformed show ?thesis by simp
next
  case Unreadable
  with names show ?thesis by (simp add: registration_def)
next
  case (Parsed data)
  show ?thesis
  proof (cases "dict_items data")
    case None
    with names Parsed show ?thesis by (simp add: registration_def)
  next
    case (Some d)
    show ?thesis
    proof (cases "map_of d (ascii ''type'') = Some (JStr (ascii ''register''))")
      case False
      have "flow_state (registration E' st ws payload)
              = flow_state (send E' st ws (Error MustRegisterFirst))"
        using Parsed Some False by (simp add: registration_def send_def Let_def)
      with names_ok_send [OF names error_ok] show ?thesis by simp
    next
      case True
      show ?thesis
      proof (cases "sanitize_username E' (map_of d (ascii ''username''))")
        case (Inl e)
        with names Parsed Some True show ?thesis by (simp add: registration_def)
      next
        case (Inr name)
        have good: "good_name E name"
          using letters tables Inr by (rule sanitize_username_good_tables)
        have reg: "names_ok E (flow_state (register_client E' st ws name))"
          using ok names good by (rule names_ok_register_client)
        show ?thesis
        proof (cases "register_client E' st ws name")
          case (Next st')
          with reg have n': "names_ok E st'" by simp
          have "flow_state (registration E' st ws payload)
                  = flow_state (send E' st' ws (UserList (map snd (client_names st'))))"
            using Parsed Some True Inr Next by (simp add: registration_def)
          with names_ok_send [OF n' list_ok [OF n']] show ?thesis by simp
        next
          case (Raised e st')
          with reg Parsed Some True Inr show ?thesis by (simp add: registration_def)
        next
          case (Returned st')
          with reg Parsed Some True Inr show ?thesis by (simp add: registration_def)
        qed
      qed
    qed
  qed
qed

lemma names_ok_message_round:
  assumes ok: "registry_ok st" and names: "names_ok E st"
  shows "names_ok E (flow_state (message_round E' iv st ws payload))"
proof -
  obtain admitted st1 where r: "rate_limit_ok st ws = (admitted, st1)"
    by (cases "rate_limit_ok st ws")
  note frame = rate_limit_ok_frame [OF r]
  have ok1: "registry_ok st1" using r ok by (rule registry_ok_rate)
  have n1: "names_ok E st1" using names unfolding names_ok_def frame .
  have err: "names_ok E (flow_state (send E' st1 ws (Error e)))" for e
    using n1 error_ok by (rule names_ok_send)
  have chat: "names_ok E (broadcast_message E' st1
                 (ChatMessage (sender_name st1 ws) content t) x echo)" for content t x echo
    using ok1 n1 chat_ok [OF n1] by (rule names_ok_broadcast)
  show ?thesis
    using n1 err chat
    by (auto simp: message_round_def r split: frame.splits option.splits)
qed

lemma names_ok_finish:
  assumes "registry_ok (flow_state f)" "names_ok E (flow_state f)"
  shows "names_ok E (step_state (finish E' ws f))"
  using assms by (cases f) (simp_all add: finish_def names_ok_unregister)

lemma srv_after: "srv (after sys ws r) = step_state r"
  by (cases r) (simp_all add: after_def)

lemma names_ok_system_step:
  assumes ok: "registry_ok (srv sys)" and names: "names_ok E (srv sys)"
    and letters: "\<forall>ch\<in>set anonimo. isalnum E ch"
    and tables: "isalnum E' = isalnum E"
  shows "names_ok E (srv (system_step E' sys occ))"
proof -
  let ?ws = "who occ"
  let ?st = "(srv sys)\<lparr>clock := at_time occ\<rparr>"
  have ok': "registry_ok ?st" using ok by simp
  have names': "names_ok E ?st" using names by simp
  have first: "names_ok E (step_state (handle_client_first E' ?st ?ws payload))" for payload
    unfolding handle_client_first_def
    using registration_ok(1) [OF ok'] names_ok_registration [OF ok' names' letters tables]
    by (rule names_ok_finish)
  have later: "names_ok E (step_state (handle_client_message E' iv ?st ?ws payload))"
    for iv payload
    unfolding handle_client_message_def
    using message_round_ok(1) [OF ok'] names_ok_message_round [OF ok' names']
    by (rule names_ok_finish)
  have closed: "names_ok E (step_state (handle_client_closed E' ?st ?ws))"
    using names_ok_unregister [OF ok' names'] by (simp add: handle_client_closed_def)
  show ?thesis
  proof (cases "pc sys ?ws")
    case Gone
    with names show ?thesis by (simp add: system_step_def Let_def)
  next
    case Connected
    then show ?thesis
      using first closed
      by (cases "what occ") (simp_all add: system_step_def Let_def srv_after)
  next
    case InLoop
    then show ?thesis
      using later closed
      by (cases "what occ") (simp_all add: system_step_def Let_def srv_after)
  qed
qed

lemma names_ok_run:
  assumes letters: "\<forall>ch\<in>set anonimo. isalnum E ch"
  shows "registry_ok (srv sys) \<Longrightarrow> \<forall>c\<in>set (clients (srv sys)). pc sys c = InLoop \<Longrightarrow>
     names_ok E (srv sys) \<Longrightarrow> \<forall>eo\<in>set occs. isalnum (fst eo) = isalnum E \<Longrightarrow>
     names_ok E (srv (run sys occs))"
proof (induction occs arbitrary: sys)
  case Nil
  then show ?case by simp
next
  case (Cons eo occs)
  obtain E' occ where eo: "eo = (E', occ)" by (cases eo)
  from Cons.prems(4) have tables: "isalnum E' = isalnum E"
    and rest: "\<forall>eo\<in>set occs. isalnum (fst eo) = isalnum E" by (simp_all add: eo)
  from system_step_ok [OF Cons.prems(1,2), of E' occ]
  have a: "registry_ok (srv (system_step E' sys occ))"
    and b: "\<forall>c\<in>set (clients (srv (system_step E' sys occ))). pc (system_step E' sys occ) c = InLoop"
    by blast+
  have c: "names_ok E (srv (system_step E' sys occ))"
    using Cons.prems(1,3) letters tables by (rule names_ok_system_step)
  from Cons.IH [OF a b c rest] show ?case by (simp add: eo)
qed

lemma names_ok_initial: "names_ok E (srv initial)"
  by (simp add: names_ok_def initial_def)

text \<open>
  Claim C6, amended. On every input string \<open>sanitize_username\<close> trims the surrounding
  whitespace, keeps only the characters that are letters or digits or one of space,
  underscore, hyphen, period and apostrophe, cuts the result to 32 code points, and
  returns the literal name of the source when nothing is left. Consequently, after
  every run of the server, every stored name is at most 32 long and holds only
  characters of those classes, and so does every name sent in an event, other than the
  name of a chat message relayed for a sender that is not in the name map, which is
  the default of that lookup. The letters of the literal name are letters for the
  runtime's \<^verbatim>\<open>isalnum\<close>, and the runtime's table does not change during the run.
\<close>

theorem sanitized_names:
  assumes letters: "\<forall>ch\<in>set anonimo. isalnum E ch"
    and tables: "\<forall>eo\<in>set occs. isalnum (fst eo) = isalnum E"
  shows "(\<exists>r. sanitize_username E (Some (JStr s)) = Inr r
            \<and> r = (let kept = take 32 (filter (allowed E) (strip E s))
                   in if kept = [] then anonimo else kept)
            \<and> length r \<le> 32
            \<and> (\<forall>ch\<in>set r. allowed E ch))
       \<and> (\<forall>name\<in>set (map snd (client_names (srv (run initial occs)))).
             length name \<le> 32 \<and> (\<forall>ch\<in>set name. allowed E ch))
       \<and> (\<forall>io\<in>set (trace (srv (run initial occs))).
             fallback_chat (io_event io)
             \<or> (\<forall>name\<in>set (event_names (io_event io)).
                   length name \<le> 32 \<and> (\<forall>ch\<in>set name. allowed E ch)))"
proof (intro conjI)
  show "\<exists>r. sanitize_username E (Some (JStr s)) = Inr r
            \<and> r = (let kept = take 32 (filter (allowed E) (strip E s))
                   in if kept = [] then anonimo else kept)
            \<and> length r \<le> 32
            \<and> (\<forall>ch\<in>set r. allowed E ch)"
    using letters by (rule sanitize_username_filters)
  have "registry_ok (srv initial)" by (simp add: initial_def registry_ok_def)
  moreover have "\<forall>c\<in>set (clients (srv initial)). pc initial c = InLoop"
    by (simp add: initial_def)
  ultimately have n: "names_ok E (srv (run initial occs))"
    using names_ok_initial tables by (rule names_ok_run [OF letters])
  from n show "\<forall>name\<in>set (map snd (client_names (srv (run initial occs)))).
             length name \<le> 32 \<and> (\<forall>ch\<in>set name. allowed E ch)"
    unfolding names_ok_def good_name_def list_all_iff by blast
  from n show "\<forall>io\<in>set (trace (srv (run initial occs))).
             fallback_chat (io_event io)
             \<or> (\<forall>name\<in>set (event_names (io_event io)).
                   length name \<le> 32 \<and> (\<forall>ch\<in>set name. allowed E ch))"
    unfolding names_ok_def event_ok_def good_name_def list_all_iff by blast
qed

lemma stale_sender_run_trace:
  "trace (srv (run initial stale_sender_run)) =
     [Sent 1 EncryptionKey,
      Sent 1 (UserJoined (ascii ''Ana'') 0),
      Sent 1 (UserList [ascii ''Ana'']),
      Sent 2 EncryptionKey,
      Sent 1 (UserJoined (ascii ''Bob'') 1),
      Sent 2 (UserJoined (ascii ''Bob'') 1),
      Sent 2 (UserList [ascii ''Ana'', ascii ''Bob'']),
      Failed 1 (ChatMessage (ascii ''Ana'') (toy_encrypt 7 (ascii ''hola'')) 2),
      Sent 2 (ChatMessage (ascii ''Ana'') (toy_encrypt 7 (ascii ''hola'')) 2),
      Sent 2 (UserLeft (ascii ''Ana'') 2),
      Sent 2 (ChatMessage (ascii ''?'') (toy_encrypt 8 (ascii ''adios'')) 3)]"
  by (simp add: stale_sender_run_def initial_def system_step_def after_def
      handle_client_first_def handle_client_message_def handle_client_closed_def
      registration_def message_round_def register_client_def finish_def send_def attempt_def
      set_add_def sanitize_username_def strip_def allowed_def latin1_isalnum_def
      latin1_isspace_def rate_limit_ok_def RATE_WINDOW_def RATE_MAX_MSGS_def
      MAX_ENCRYPTED_LEN_def MAX_PLAINTEXT_LEN_def broadcast_message_def unregister_client_def
      cleanup_Cons send_all_def disconnected_def targets_def forget_def left_name_def
      sender_name_def toy_env_def toy_encrypt_def register_frame_def chat_frame_def ascii_def
      Let_def)

lemma stale_sender_run_names:
  "client_names (srv (run initial stale_sender_run)) = [(2, ascii ''Bob'')]"
  by (simp add: stale_sender_run_def initial_def system_step_def after_def
      handle_client_first_def handle_client_message_def handle_client_closed_def
      registration_def message_round_def register_client_def finish_def send_def attempt_def
      set_add_def sanitize_username_def strip_def allowed_def latin1_isalnum_def
      latin1_isspace_def rate_limit_ok_def RATE_WINDOW_def RATE_MAX_MSGS_def
      MAX_ENCRYPTED_LEN_def MAX_PLAINTEXT_LEN_def broadcast_message_def unregister_client_def
      cleanup_Cons send_all_def disconnected_def targets_def forget_def left_name_def
      sender_name_def toy_env_def toy_encrypt_def register_frame_def chat_frame_def ascii_def
      Let_def)

theorem sanitized_names_witness:
  "list_all (isalnum (toy_env (\<lambda>c. True))) anonimo
   \<and> list_all (\<lambda>eo. isalnum (fst eo) = isalnum (toy_env (\<lambda>c. True))) stale_sender_run
   \<and> sanitize_username (toy_env (\<lambda>c. True)) (Some (JStr [32, 9, 65, 0, 110, 33, 97, 95, 10]))
       = Inr [65, 110, 97, 95]
   \<and> map snd (client_names (srv (run initial stale_sender_run))) = [ascii ''Bob'']
   \<and> length (ascii ''Bob'') \<le> 32
   \<and> list_all (allowed (toy_env (\<lambda>c. True))) (ascii ''Bob'')
   \<and> list_all (allowed (toy_env (\<lambda>c. True))) (ascii ''Ana'')
   \<and> fallback_chat (ChatMessage (ascii ''?'') (toy_encrypt 8 (ascii ''adios'')) 3)"
proof -
  let ?E = "toy_env (\<lambda>c. True)"
  let ?s = "[32, 9, 65, 0, 110, 33, 97, 95, 10]"
  have h: "\<forall>ch\<in>set anonimo. isalnum ?E ch"
    by (simp add: toy_env_def anonimo_def ascii_def latin1_isalnum_def)
  have t: "\<forall>eo\<in>set stale_sender_run. isalnum (fst eo) = isalnum ?E"
    by (simp add: stale_sender_run_def toy_env_def)
  have k: "take 32 (filter (allowed ?E) (strip ?E ?s)) = [65, 110, 97, 95]"
    by (simp add: toy_env_def strip_def allowed_def latin1_isalnum_def latin1_isspace_def)
  note inst = sanitized_names [OF h t, of ?s]
  from inst have a: "sanitize_username ?E (Some (JStr ?s)) = Inr [65, 110, 97, 95]"
    by (simp add: k Let_def)
  from inst have stored: "\<forall>name\<in>set (map snd (client_names (srv (run initial stale_sender_run)))).
      length name \<le> 32 \<and> (\<forall>ch\<in>set name. allowed ?E ch)"
    by blast
  from inst have sent: "\<forall>io\<in>set (trace (srv (run initial stale_sender_run))).
      fallback_chat (io_event io)
      \<or> (\<forall>name\<in>set (event_names (io_event io)). length name \<le> 32 \<and> (\<forall>ch\<in>set name. allowed ?E ch))"
    by blast
  have n: "map snd (client_names (srv (run initial stale_sender_run))) = [ascii ''Bob'']"
    by (simp add: stale_sender_run_names)
  from stored have bob: "length (ascii ''Bob'') \<le> 32 \<and> list_all (allowed ?E) (ascii ''Bob'')"
    unfolding n list_all_iff by simp
  have "Sent 1 (UserJoined (ascii ''Ana'') 0) \<in> set (trace (srv (run initial stale_sender_run)))"
    by (simp add: stale_sender_run_trace)
  from sent [rule_format, OF this] have ana: "list_all (allowed ?E) (ascii ''Ana'')"
    unfolding list_all_iff by simp
  have "Sent 2 (ChatMessage (ascii ''?'') (toy_encrypt 8 (ascii ''adios'')) 3)
          \<in> set (trace (srv (run initial stale_sender_run)))"
    by (simp add: stale_sender_run_trace)
  from sent [rule_format, OF this]
  have q: "fallback_chat (ChatMessage (ascii ''?'') (toy_encrypt 8 (ascii ''adios'')) 3)"
    by (simp add: ascii_def allowed_def toy_env_def latin1_isalnum_def)
  from h t a n bob ana q show ?thesis
    unfolding list_all_iff by blast
qed

text \<open>
  Claim C6 as it stands, at the run \<open>stale_sender_run\<close>: the second message of Ana is
  relayed after the broadcast of her first one has unregistered her, and the lookup of
  her name gives its default, a question mark, which is neither a letter or digit nor
  one of the five other characters. So a name that the server sends has a character
  outside the classes of the sanitizer.
\<close>

theorem fallback_name_sent:
  "Sent 2 (ChatMessage (ascii ''?'') (toy_encrypt 8 (ascii ''adios'')) 3)
     \<in> set (trace (srv (run initial stale_sender_run)))
   \<and> \<not> list_all (allowed (toy_env (\<lambda>c. True))) (ascii ''?'')
   \<and> list_all (isalnum (toy_env (\<lambda>c. True))) anonimo"
proof (intro conjI)
  show "Sent 2 (ChatMessage (ascii ''?'') (toy_encrypt 8 (ascii ''adios'')) 3)
     \<in> set (trace (srv (run initial stale_sender_run)))"
    by (simp add: stale_sender_run_trace)
  show "\<not> list_all (allowed (toy_env (\<lambda>c. True))) (ascii ''?'')"
    by (simp add: ascii_def allowed_def toy_env_def latin1_isalnum_def)
  show "list_all (isalnum (toy_env (\<lambda>c. True))) anonimo"
    by (simp add: toy_env_def anonimo_def ascii_def latin1_isalnum_def)
qed

end
